theory Spec2Isabelle
  imports Main "HOL-Library.Signed_Division"
begin

section \<open>Results of a C++ call\<close>

text \<open>
  The header \<^verbatim>\<open>util.hpp\<close> is embedded function by function.

  A call that does not return a value ends in an \<open>error\<close>: a thrown string literal, the
  exception of \<^verbatim>\<open>new T[n]\<close> for a negative \<open>n\<close>, or undefined behaviour (a null,
  dangling or out-of-range access, the read of an element that was never assigned, a
  remainder by zero).
\<close>

datatype error = Thrown string | Bad_array_new_length | Undefined_behaviour

section \<open>The type int\<close>

text \<open>
  A C++ \<^verbatim>\<open>int\<close> has 32 bits. Its values are the integers from \<open>INT_MIN\<close> to \<open>INT_MAX\<close>,
  and where a sum, a difference or a product of the code can leave that range the
  wrap-around is written out: \<open>wrap_int n\<close> is the value of the range that equals \<open>n\<close>
  modulo \<open>2^32\<close>, what the arithmetic of the compiled code returns. This is the arithmetic
  of the coordinates and of \<open>Grid\<close>. The cursors of \<open>RingBuffer\<close> stay between \<open>-1\<close> and
  the capacity, the index sum of its \<open>operator[]\<close> below twice the capacity, and the
  coordinates of the coordinate range between 0 and 30: their arithmetic is written as
  that of the integers.
\<close>

definition INT_MIN :: int where
  "INT_MIN = - (2 ^ 31)"

definition INT_MAX :: int where
  "INT_MAX = 2 ^ 31 - 1"

definition wrap_int :: "int \<Rightarrow> int" where
  "wrap_int n = (n + 2 ^ 31) mod 2 ^ 32 - 2 ^ 31"

section \<open>Coordinates\<close>

datatype Dir = up | down | left | right

text \<open>\<^verbatim>\<open>Dir operator - (Dir dir)\<close>\<close>

fun Dir_neg :: "Dir \<Rightarrow> Dir" where
  "Dir_neg up = down"
| "Dir_neg down = up"
| "Dir_neg left = right"
| "Dir_neg right = left"

text \<open>\<^verbatim>\<open>struct Coord { int x,y; }\<close>: the fields are \<open>coord_x\<close> and \<open>coord_y\<close>.\<close>

record Coord =
  coord_x :: int
  coord_y :: int

text \<open>\<^verbatim>\<open>bool operator == (Coord a, Coord b)\<close> and \<^verbatim>\<open>operator !=\<close>\<close>

definition Coord_eq :: "Coord \<Rightarrow> Coord \<Rightarrow> bool" where
  "Coord_eq a b = (coord_x a = coord_x b \<and> coord_y a = coord_y b)"

definition Coord_neq :: "Coord \<Rightarrow> Coord \<Rightarrow> bool" where
  "Coord_neq a b = (\<not> Coord_eq a b)"

text \<open>\<^verbatim>\<open>Coord operator + (Coord a, Dir dir)\<close>\<close>

fun Coord_plus :: "Coord \<Rightarrow> Dir \<Rightarrow> Coord" where
  "Coord_plus a up = \<lparr>coord_x = coord_x a, coord_y = wrap_int (coord_y a - 1)\<rparr>"
| "Coord_plus a down = \<lparr>coord_x = coord_x a, coord_y = wrap_int (coord_y a + 1)\<rparr>"
| "Coord_plus a left = \<lparr>coord_x = wrap_int (coord_x a - 1), coord_y = coord_y a\<rparr>"
| "Coord_plus a right = \<lparr>coord_x = wrap_int (coord_x a + 1), coord_y = coord_y a\<rparr>"

text \<open>
  \<^verbatim>\<open>Dir operator - (Coord a, Coord b)\<close>, the \<open>direction_between(a, b)\<close> of the
  specification. It ends in \<^verbatim>\<open>throw "Not a dir"\<close>.
\<close>

definition Coord_minus :: "Coord \<Rightarrow> Coord \<Rightarrow> error + Dir" where
  "Coord_minus a b =
     (if coord_x a = coord_x b then
        (if coord_y a = wrap_int (coord_y b - 1) then Inr up
         else if coord_y a = wrap_int (coord_y b + 1) then Inr down
         else Inl (Thrown ''Not a dir''))
      else if coord_y a = coord_y b then
        (if coord_x a = wrap_int (coord_x b - 1) then Inr left
         else if coord_x a = wrap_int (coord_x b + 1) then Inr right
         else Inl (Thrown ''Not a dir''))
      else Inl (Thrown ''Not a dir''))"

text \<open>
  The Manhattan distance of two coordinates, in which the specification states adjacency.
  It is the distance of the integers, with no wrap-around.
\<close>

definition manhattan :: "Coord \<Rightarrow> Coord \<Rightarrow> int" where
  "manhattan a b = \<bar>coord_x a - coord_x b\<bar> + \<bar>coord_y a - coord_y b\<bar>"

text \<open>
  A coordinate whose components are strictly between \<open>INT_MIN\<close> and \<open>INT_MAX\<close>: a step
  from it in any direction does not overflow.
\<close>

definition interior :: "Coord \<Rightarrow> bool" where
  "interior a =
     (INT_MIN < coord_x a \<and> coord_x a < INT_MAX \<and> INT_MIN < coord_y a \<and> coord_y a < INT_MAX)"

section \<open>Coordinate grid\<close>

text \<open>\<^verbatim>\<open>const int w = 30, h = 30;\<close> The constructor of \<open>Grid\<close> writes them \<^verbatim>\<open>::w\<close>, \<^verbatim>\<open>::h\<close>.\<close>

definition global_w :: int where
  "global_w = 30"

definition global_h :: int where
  "global_h = 30"

definition valid :: "Coord \<Rightarrow> bool" where
  "valid a = (coord_x a \<ge> 0 \<and> coord_x a < global_w \<and> coord_y a \<ge> 0 \<and> coord_y a < global_h)"

text \<open>\<^verbatim>\<open>struct CoordRange::iterator { Coord coord; ... }\<close>\<close>

record iterator =
  coord :: Coord

definition iterator_deref :: "iterator \<Rightarrow> Coord" where
  "iterator_deref it = coord it"

text \<open>\<^verbatim>\<open>operator ++\<close>: \<^verbatim>\<open>coord.x++; if (coord.x == w) { coord.x = 0; coord.y++; }\<close>\<close>

definition iterator_inc :: "iterator \<Rightarrow> iterator" where
  "iterator_inc it =
     (let c = (coord it)\<lparr>coord_x := coord_x (coord it) + 1\<rparr> in
      if coord_x c = global_w
      then it\<lparr>coord := c\<lparr>coord_x := 0, coord_y := coord_y c + 1\<rparr>\<rparr>
      else it\<lparr>coord := c\<rparr>)"

definition iterator_neq :: "iterator \<Rightarrow> iterator \<Rightarrow> bool" where
  "iterator_neq it that = Coord_neq (coord it) (coord that)"

definition CoordRange_begin :: iterator where
  "CoordRange_begin = \<lparr>coord = \<lparr>coord_x = 0, coord_y = 0\<rparr>\<rparr>"

definition CoordRange_end :: iterator where
  "CoordRange_end = \<lparr>coord = \<lparr>coord_x = 0, coord_y = global_h\<rparr>\<rparr>"

text \<open>
  The range-based loop \<^verbatim>\<open>for (Coord c : coords)\<close>, which is
  \<^verbatim>\<open>for (auto it = coords.begin(); it != coords.end(); ++it) { Coord c = *it; ... }\<close>.
  \<open>range_loop it visited\<close> runs the loop from the iterator \<open>it\<close> and returns the coordinates
  the body has seen, in order; it is \<open>None\<close> when the loop does not end.
\<close>

partial_function (option) range_loop :: "iterator \<Rightarrow> Coord list \<Rightarrow> Coord list option" where
  "range_loop it visited =
     (if iterator_neq it CoordRange_end
      then range_loop (iterator_inc it) (visited @ [iterator_deref it])
      else Some visited)"

definition coords :: "Coord list option" where
  "coords = range_loop CoordRange_begin []"

text \<open>
  The nested loops of the specification, \<open>for y in 0..H-1: for x in 0..W-1\<close>, as the list
  of the coordinates they visit.
\<close>

definition nested_loops :: "int \<Rightarrow> int \<Rightarrow> Coord list" where
  "nested_loops W H =
     concat (map (\<lambda>j. map (\<lambda>i. \<lparr>coord_x = i, coord_y = j\<rparr>) [0..W - 1]) [0..H - 1])"

section \<open>Arrays on the heap\<close>

text \<open>
  \<open>Grid\<close> and \<open>RingBuffer\<close> hold a pointer \<^verbatim>\<open>T* data\<close> to an array made by
  \<^verbatim>\<open>new T[n]\<close>, and two objects can hold the same pointer. So the arrays live in an
  explicit store: a heap is the list of the arrays allocated so far, an address is a
  position in it, and a pointer is an address or \<open>None\<close>, the null pointer. An array that
  was deleted is \<open>None\<close> in the heap; an element that was never assigned is \<open>None\<close> in
  its array.
\<close>

type_synonym addr = nat

type_synonym 'a heap = "'a option list option list"

type_synonym pointer = "addr option"

definition array_at :: "'a heap \<Rightarrow> pointer \<Rightarrow> 'a option list option" where
  "array_at hp p =
     (case p of None \<Rightarrow> None | Some a \<Rightarrow> if a < length hp then hp ! a else None)"

text \<open>
  \<^verbatim>\<open>new T[n]\<close>: a negative \<open>n\<close> throws \<^verbatim>\<open>std::bad_array_new_length\<close>; otherwise the
  array is fresh, of \<open>n\<close> elements, none assigned yet. The heap is not bounded, so
  \<^verbatim>\<open>std::bad_alloc\<close> is never thrown.
\<close>

definition new_array :: "'a heap \<Rightarrow> int \<Rightarrow> error + (pointer \<times> 'a heap)" where
  "new_array hp n =
     (if n < 0 then Inl Bad_array_new_length
      else Inr (Some (length hp), hp @ [Some (replicate (nat n) None)]))"

text \<open>\<^verbatim>\<open>delete[] p\<close>: nothing for the null pointer; undefined for a pointer deleted before.\<close>

definition delete_array :: "'a heap \<Rightarrow> pointer \<Rightarrow> error + 'a heap" where
  "delete_array hp p =
     (case p of
        None \<Rightarrow> Inr hp
      | Some a \<Rightarrow>
          (case array_at hp p of
             None \<Rightarrow> Inl Undefined_behaviour
           | Some arr \<Rightarrow> Inr (hp[a := None])))"

text \<open>The read of \<^verbatim>\<open>p[i]\<close>.\<close>

definition load :: "'a heap \<Rightarrow> pointer \<Rightarrow> int \<Rightarrow> error + 'a" where
  "load hp p i =
     (case array_at hp p of
        None \<Rightarrow> Inl Undefined_behaviour
      | Some arr \<Rightarrow>
          if 0 \<le> i \<and> i < int (length arr)
          then (case arr ! nat i of None \<Rightarrow> Inl Undefined_behaviour | Some v \<Rightarrow> Inr v)
          else Inl Undefined_behaviour)"

text \<open>The assignment \<^verbatim>\<open>p[i] = v\<close>.\<close>

definition store :: "'a heap \<Rightarrow> pointer \<Rightarrow> int \<Rightarrow> 'a \<Rightarrow> error + 'a heap" where
  "store hp p i v =
     (case p of
        None \<Rightarrow> Inl Undefined_behaviour
      | Some a \<Rightarrow>
          (case array_at hp p of
             None \<Rightarrow> Inl Undefined_behaviour
           | Some arr \<Rightarrow>
               if 0 \<le> i \<and> i < int (length arr)
               then Inr (hp[a := Some (arr[nat i := Some v])])
               else Inl Undefined_behaviour))"

text \<open>
  \<^verbatim>\<open>std::fill(p, p + n, v)\<close>, the loop \<^verbatim>\<open>for (; first != last; ++first) *first = v\<close>.
  An empty range touches no element.
\<close>

definition std_fill :: "'a heap \<Rightarrow> pointer \<Rightarrow> int \<Rightarrow> 'a \<Rightarrow> error + 'a heap" where
  "std_fill hp p n v =
     (if n = 0 then Inr hp
      else case p of
        None \<Rightarrow> Inl Undefined_behaviour
      | Some a \<Rightarrow>
          (case array_at hp p of
             None \<Rightarrow> Inl Undefined_behaviour
           | Some arr \<Rightarrow>
               if 0 \<le> n \<and> n \<le> int (length arr)
               then Inr (hp[a := Some (replicate (nat n) (Some v) @ drop (nat n) arr)])
               else Inl Undefined_behaviour))"

text \<open>
  \<^verbatim>\<open>std::copy(src, src + n, dst)\<close>, the loop \<^verbatim>\<open>*dst++ = *src++\<close> over \<open>n\<close> elements.
  An empty range touches no element. When \<open>src\<close> and \<open>dst\<close> are the same pointer every
  element is assigned to itself, and the array is as before.
\<close>

definition std_copy :: "'a heap \<Rightarrow> pointer \<Rightarrow> int \<Rightarrow> pointer \<Rightarrow> error + 'a heap" where
  "std_copy hp src n dst =
     (if n = 0 then Inr hp
      else case dst of
        None \<Rightarrow> Inl Undefined_behaviour
      | Some d \<Rightarrow>
          (case (array_at hp src, array_at hp dst) of
             (Some sarr, Some darr) \<Rightarrow>
               if 0 \<le> n \<and> n \<le> int (length sarr) \<and> n \<le> int (length darr)
               then Inr (hp[d := Some (take (nat n) sarr @ drop (nat n) darr)])
               else Inl Undefined_behaviour
           | _ \<Rightarrow> Inl Undefined_behaviour))"

section \<open>Grid\<close>

text \<open>\<^verbatim>\<open>class Grid { T* data; int w,h; ... }\<close>\<close>

record Grid =
  Grid_data :: pointer
  Grid_w :: int
  Grid_h :: int

text \<open>
  \<^verbatim>\<open>Grid(T const& init = T(), int w=::w, int h=::h) : data(new T[w*h]), w(w), h(h)\<close>
  with the body \<^verbatim>\<open>std::fill(begin(), end(), init)\<close>, where \<^verbatim>\<open>begin()\<close> is \<^verbatim>\<open>data\<close>
  and \<^verbatim>\<open>end()\<close> is \<^verbatim>\<open>&data[w*h]\<close>.
\<close>

definition Grid_new :: "'a \<Rightarrow> int \<Rightarrow> int \<Rightarrow> 'a heap \<Rightarrow> error + (Grid \<times> 'a heap)" where
  "Grid_new init w h hp =
     (case new_array hp (wrap_int (w * h)) of
        Inl e \<Rightarrow> Inl e
      | Inr (p, hp1) \<Rightarrow>
          (case std_fill hp1 p (wrap_int (w * h)) init of
             Inl e \<Rightarrow> Inl e
           | Inr hp2 \<Rightarrow> Inr (\<lparr>Grid_data = p, Grid_w = w, Grid_h = h\<rparr>, hp2)))"

text \<open>
  \<^verbatim>\<open>Grid(Grid const& that) : data(new T[that.w*that.h]), w(that.w), h(that.h)\<close> with the
  body \<^verbatim>\<open>std::copy(that.begin(), that.end(), data)\<close>.
\<close>

definition Grid_copy :: "Grid \<Rightarrow> 'a heap \<Rightarrow> error + (Grid \<times> 'a heap)" where
  "Grid_copy that hp =
     (case new_array hp (wrap_int (Grid_w that * Grid_h that)) of
        Inl e \<Rightarrow> Inl e
      | Inr (p, hp1) \<Rightarrow>
          (case std_copy hp1 (Grid_data that) (wrap_int (Grid_w that * Grid_h that)) p of
             Inl e \<Rightarrow> Inl e
           | Inr hp2 \<Rightarrow> Inr (\<lparr>Grid_data = p, Grid_w = Grid_w that, Grid_h = Grid_h that\<rparr>, hp2)))"

text \<open>
  \<^verbatim>\<open>Grid(Grid&& that) : data(that.data) { that.data = nullptr; }\<close>
  The constructor initialises \<open>data\<close> and nothing else: \<open>w\<close> and \<open>h\<close> of the new object
  keep what its storage held before. \<open>raw\<close> is that storage; the result is the new
  object and the source after the move.
\<close>

definition Grid_move :: "Grid \<Rightarrow> Grid \<Rightarrow> Grid \<times> Grid" where
  "Grid_move raw that = (raw\<lparr>Grid_data := Grid_data that\<rparr>, that\<lparr>Grid_data := None\<rparr>)"

text \<open>\<^verbatim>\<open>~Grid() { delete[] data; }\<close>\<close>

definition Grid_destroy :: "Grid \<Rightarrow> 'a heap \<Rightarrow> error + 'a heap" where
  "Grid_destroy g hp = delete_array hp (Grid_data g)"

text \<open>\<open>size()\<close>: \<^verbatim>\<open>return w*h;\<close>\<close>

definition Grid_size :: "Grid \<Rightarrow> int" where
  "Grid_size g = wrap_int (Grid_w g * Grid_h g)"

text \<open>
  \<^verbatim>\<open>operator [] (Coord a)\<close> returns the reference \<^verbatim>\<open>data[a.x + w*a.y]\<close>: \<open>Grid_get\<close> reads
  through it and \<open>Grid_set\<close> assigns through it.
\<close>

definition Grid_get :: "Grid \<Rightarrow> 'a heap \<Rightarrow> Coord \<Rightarrow> error + 'a" where
  "Grid_get g hp a = load hp (Grid_data g) (wrap_int (coord_x a + wrap_int (Grid_w g * coord_y a)))"

definition Grid_set :: "Grid \<Rightarrow> 'a heap \<Rightarrow> Coord \<Rightarrow> 'a \<Rightarrow> error + 'a heap" where
  "Grid_set g hp a v =
     store hp (Grid_data g) (wrap_int (coord_x a + wrap_int (Grid_w g * coord_y a))) v"

text \<open>The coordinates of a grid: \<open>0 \<le> x < w\<close> and \<open>0 \<le> y < h\<close> for its own \<open>w\<close> and \<open>h\<close>.\<close>

definition in_grid :: "Grid \<Rightarrow> Coord \<Rightarrow> bool" where
  "in_grid g a = (0 \<le> coord_x a \<and> coord_x a < Grid_w g \<and> 0 \<le> coord_y a \<and> coord_y a < Grid_h g)"

text \<open>
  A grid that owns its buffer, with dimensions whose product does not overflow: \<open>data\<close>
  points to a live array of \<open>w * h\<close> elements, and \<open>w * h\<close> is at most \<open>INT_MAX\<close>.
\<close>

definition Grid_inv :: "Grid \<Rightarrow> 'a heap \<Rightarrow> bool" where
  "Grid_inv g hp =
     (case array_at hp (Grid_data g) of
        None \<Rightarrow> False
      | Some arr \<Rightarrow> int (length arr) = Grid_w g * Grid_h g \<and> Grid_w g * Grid_h g \<le> INT_MAX)"

section \<open>Ring buffer\<close>

text \<open>
  \<^verbatim>\<open>class RingBuffer { T* data; int capacity_; int begin_, end_; ... }\<close>: the fields
  are \<open>rb_data\<close>, \<open>rb_capacity\<close>, \<open>rb_begin\<close> and \<open>rb_end\<close>.
\<close>

record RingBuffer =
  rb_data :: pointer
  rb_capacity :: int
  rb_begin :: int
  rb_end :: int

text \<open>\<^verbatim>\<open>RingBuffer(int capacity_) : data(new T[capacity_]), capacity_(capacity_), begin_(0), end_(0)\<close>\<close>

definition RingBuffer_new :: "int \<Rightarrow> 'a heap \<Rightarrow> error + (RingBuffer \<times> 'a heap)" where
  "RingBuffer_new cap hp =
     (case new_array hp cap of
        Inl e \<Rightarrow> Inl e
      | Inr (p, hp1) \<Rightarrow>
          Inr (\<lparr>rb_data = p, rb_capacity = cap, rb_begin = 0, rb_end = 0\<rparr>, hp1))"

text \<open>
  \<^verbatim>\<open>RingBuffer(RingBuffer const& that) : data(that.data), capacity_(that.capacity_),
  begin_(that.begin_), end_(that.end_)\<close> with the body
  \<^verbatim>\<open>std::copy(that.data, that.data+capacity_, data)\<close>. No array is allocated.
\<close>

definition RingBuffer_copy :: "RingBuffer \<Rightarrow> 'a heap \<Rightarrow> error + (RingBuffer \<times> 'a heap)" where
  "RingBuffer_copy that hp =
     (let this = \<lparr>rb_data = rb_data that, rb_capacity = rb_capacity that,
                  rb_begin = rb_begin that, rb_end = rb_end that\<rparr>
      in case std_copy hp (rb_data that) (rb_capacity this) (rb_data this) of
           Inl e \<Rightarrow> Inl e
         | Inr hp1 \<Rightarrow> Inr (this, hp1))"

text \<open>\<^verbatim>\<open>~RingBuffer() { delete [] data; }\<close>\<close>

definition RingBuffer_destroy :: "RingBuffer \<Rightarrow> 'a heap \<Rightarrow> error + 'a heap" where
  "RingBuffer_destroy r hp = delete_array hp (rb_data r)"

definition capacity :: "RingBuffer \<Rightarrow> int" where
  "capacity r = rb_capacity r"

text \<open>\<^verbatim>\<open>return end_ - begin_ + (end_ < begin_) * capacity();\<close>\<close>

definition RingBuffer_size :: "RingBuffer \<Rightarrow> int" where
  "RingBuffer_size r = rb_end r - rb_begin r + (if rb_end r < rb_begin r then 1 else 0) * capacity r"

definition RingBuffer_empty :: "RingBuffer \<Rightarrow> bool" where
  "RingBuffer_empty r = (rb_begin r = rb_end r)"

text \<open>\<open>front()\<close>: \<^verbatim>\<open>return data[begin_];\<close>\<close>

definition RingBuffer_front :: "RingBuffer \<Rightarrow> 'a heap \<Rightarrow> error + 'a" where
  "RingBuffer_front r hp = load hp (rb_data r) (rb_begin r)"

text \<open>\<^verbatim>\<open>begin_--; if (begin_ < 0) begin_ = capacity() - 1; data[begin_] = x;\<close>\<close>

definition push_front :: "'a \<Rightarrow> RingBuffer \<Rightarrow> 'a heap \<Rightarrow> error + (RingBuffer \<times> 'a heap)" where
  "push_front v r hp =
     (let r1 = r\<lparr>rb_begin := rb_begin r - 1\<rparr>;
          r2 = (if rb_begin r1 < 0 then r1\<lparr>rb_begin := capacity r1 - 1\<rparr> else r1)
      in case store hp (rb_data r2) (rb_begin r2) v of
           Inl e \<Rightarrow> Inl e
         | Inr hp1 \<Rightarrow> Inr (r2, hp1))"

text \<open>\<^verbatim>\<open>begin_++; if (begin_ >= capacity()) begin_ = 0;\<close>\<close>

definition pop_front :: "RingBuffer \<Rightarrow> RingBuffer" where
  "pop_front r =
     (let r1 = r\<lparr>rb_begin := rb_begin r + 1\<rparr>
      in if rb_begin r1 \<ge> capacity r1 then r1\<lparr>rb_begin := 0\<rparr> else r1)"

text \<open>\<open>back()\<close>: \<^verbatim>\<open>return end_ == 0 ? data[capacity() - 1] : data[end_ - 1];\<close>\<close>

definition RingBuffer_back :: "RingBuffer \<Rightarrow> 'a heap \<Rightarrow> error + 'a" where
  "RingBuffer_back r hp =
     (if rb_end r = 0 then load hp (rb_data r) (capacity r - 1)
      else load hp (rb_data r) (rb_end r - 1))"

text \<open>\<^verbatim>\<open>data[end_] = x; end_++; if (end_ >= capacity()) end_ = 0;\<close>\<close>

definition push_back :: "'a \<Rightarrow> RingBuffer \<Rightarrow> 'a heap \<Rightarrow> error + (RingBuffer \<times> 'a heap)" where
  "push_back v r hp =
     (case store hp (rb_data r) (rb_end r) v of
        Inl e \<Rightarrow> Inl e
      | Inr hp1 \<Rightarrow>
          (let r1 = r\<lparr>rb_end := rb_end r + 1\<rparr>
           in Inr (if rb_end r1 \<ge> capacity r1 then r1\<lparr>rb_end := 0\<rparr> else r1, hp1)))"

text \<open>\<^verbatim>\<open>end_--; if (end_ < 0) end_ = capacity() - 1;\<close>\<close>

definition pop_back :: "RingBuffer \<Rightarrow> RingBuffer" where
  "pop_back r =
     (let r1 = r\<lparr>rb_end := rb_end r - 1\<rparr>
      in if rb_end r1 < 0 then r1\<lparr>rb_end := capacity r1 - 1\<rparr> else r1)"

text \<open>
  \<^verbatim>\<open>operator[] (int i)\<close>, the \<open>at(i)\<close> of the specification:
  \<^verbatim>\<open>data[(begin_+i) % capacity_]\<close>. The remainder of C++ truncates towards zero
  (\<open>smod\<close>), and a remainder by zero is undefined.
\<close>

definition RingBuffer_at :: "RingBuffer \<Rightarrow> 'a heap \<Rightarrow> int \<Rightarrow> error + 'a" where
  "RingBuffer_at r hp i =
     (if rb_capacity r = 0 then Inl Undefined_behaviour
      else load hp (rb_data r) ((rb_begin r + i) smod rb_capacity r))"

text \<open>A sequence of calls of the four mutating member functions on one ring buffer.\<close>

datatype 'a rb_call = Push_front 'a | Pop_front | Push_back 'a | Pop_back

fun call :: "'a rb_call \<Rightarrow> RingBuffer \<Rightarrow> 'a heap \<Rightarrow> error + (RingBuffer \<times> 'a heap)" where
  "call (Push_front v) r hp = push_front v r hp"
| "call Pop_front r hp = Inr (pop_front r, hp)"
| "call (Push_back v) r hp = push_back v r hp"
| "call Pop_back r hp = Inr (pop_back r, hp)"

fun calls :: "'a rb_call list \<Rightarrow> RingBuffer \<Rightarrow> 'a heap \<Rightarrow> error + (RingBuffer \<times> 'a heap)" where
  "calls [] r hp = Inr (r, hp)"
| "calls (c # cs) r hp =
     (case call c r hp of Inl e \<Rightarrow> Inl e | Inr (r1, hp1) \<Rightarrow> calls cs r1 hp1)"

text \<open>A ring buffer is constructed with the capacity \<open>cap\<close>, then the calls are made on it.\<close>

definition new_then_calls :: "int \<Rightarrow> 'a rb_call list \<Rightarrow> 'a heap \<Rightarrow> error + (RingBuffer \<times> 'a heap)" where
  "new_then_calls cap cs hp =
     (case RingBuffer_new cap hp of Inl e \<Rightarrow> Inl e | Inr (r, hp1) \<Rightarrow> calls cs r hp1)"

text \<open>
  What every ring buffer made by the constructor with a capacity of at least 1 satisfies,
  whatever was called on it since: \<open>data\<close> points to a live array of \<open>capacity_\<close>
  elements, and both cursors are in \<open>[0, capacity_)\<close>.
\<close>

definition RingBuffer_inv :: "RingBuffer \<Rightarrow> 'a heap \<Rightarrow> bool" where
  "RingBuffer_inv r hp =
     ((case array_at hp (rb_data r) of
         None \<Rightarrow> False
       | Some arr \<Rightarrow> int (length arr) = rb_capacity r) \<and>
      0 \<le> rb_begin r \<and> rb_begin r < rb_capacity r \<and>
      0 \<le> rb_end r \<and> rb_end r < rb_capacity r)"

section \<open>The type int: lemmas\<close>

lemma wrap_int_id:
  assumes "INT_MIN \<le> n" and "n \<le> INT_MAX"
  shows "wrap_int n = n"
proof -
  have "0 \<le> n + 2 ^ 31" "n + 2 ^ 31 < 2 ^ 32"
    using assms by (simp_all add: INT_MIN_def INT_MAX_def)
  then have "(n + 2 ^ 31) mod 2 ^ 32 = n + 2 ^ 31"
    by (rule mod_pos_pos_trivial)
  then show ?thesis by (simp add: wrap_int_def)
qed

lemma wrap_int_range: "INT_MIN \<le> wrap_int n \<and> wrap_int n \<le> INT_MAX"
proof -
  have "0 \<le> (n + 2 ^ 31) mod (2 ^ 32 :: int)" "(n + 2 ^ 31) mod (2 ^ 32 :: int) < 2 ^ 32"
    by simp_all
  then show ?thesis by (simp add: wrap_int_def INT_MIN_def INT_MAX_def)
qed

text \<open>Modulo \<open>2^32\<close>, no integer is its own predecessor or successor.\<close>

lemma wrap_int_step_neq:
  "wrap_int (n - 1) \<noteq> n" "wrap_int (n + 1) \<noteq> n"
proof -
  have neq: "(m + k) mod 2 ^ 32 \<noteq> m" if k: "k = 1 \<or> k = - 1" for m k :: int
  proof
    assume eq: "(m + k) mod 2 ^ 32 = m"
    then have "m mod 2 ^ 32 = (m + k) mod 2 ^ 32"
      by (metis mod_mod_trivial)
    then have "(2 ^ 32 :: int) dvd m - (m + k)"
      by (simp only: mod_eq_dvd_iff)
    then have "(2 ^ 32 :: int) dvd k" by simp
    with k show False by auto
  qed
  from neq [of "- 1" "n + 2 ^ 31"] show "wrap_int (n - 1) \<noteq> n"
    by (auto simp: wrap_int_def)
  from neq [of 1 "n + 2 ^ 31"] show "wrap_int (n + 1) \<noteq> n"
    by (auto simp: wrap_int_def)
qed

section \<open>Geometry: theorems\<close>

lemma valid_interior: "valid c \<Longrightarrow> interior c"
  by (simp add: valid_def interior_def global_w_def global_h_def INT_MIN_def INT_MAX_def)

text \<open>From an interior coordinate, the steps of the code are those of the integers.\<close>

lemma wrap_int_interior:
  assumes "interior b"
  shows "wrap_int (coord_x b - 1) = coord_x b - 1" "wrap_int (coord_x b + 1) = coord_x b + 1"
    "wrap_int (coord_y b - 1) = coord_y b - 1" "wrap_int (coord_y b + 1) = coord_y b + 1"
  using assms by (simp_all add: interior_def wrap_int_id)

lemma Coord_minus_plus:
  assumes "interior c"
  shows "Coord_minus (Coord_plus c d) c = Inr d"
  using wrap_int_interior [OF assms] by (cases d) (simp_all add: Coord_minus_def)

lemma Coord_minus_plus_neg:
  assumes "interior c" and "interior (Coord_plus c d)"
  shows "Coord_minus c (Coord_plus c d) = Inr (Dir_neg d)"
proof -
  note c = wrap_int_interior [OF assms(1)]
  show ?thesis
  proof (cases d)
    case up
    with c wrap_int_interior [OF assms(2)] show ?thesis by (simp add: Coord_minus_def)
  next
    case down
    with c wrap_int_interior [OF assms(2)] show ?thesis by (simp add: Coord_minus_def)
  next
    case left
    with c wrap_int_interior [OF assms(2)] show ?thesis by (simp add: Coord_minus_def)
  next
    case right
    with c wrap_int_interior [OF assms(2)] show ?thesis by (simp add: Coord_minus_def)
  qed
qed

lemma Coord_minus_self: "Coord_minus a a = Inl (Thrown ''Not a dir'')"
  by (simp add: Coord_minus_def wrap_int_step_neq [of "coord_y a", symmetric])

lemma Coord_minus_diagonal:
  "coord_x a \<noteq> coord_x b \<Longrightarrow> coord_y a \<noteq> coord_y b \<Longrightarrow>
   Coord_minus a b = Inl (Thrown ''Not a dir'')"
  by (simp add: Coord_minus_def)

lemma Coord_minus_throws_iff:
  assumes "interior b"
  shows "(Coord_minus a b = Inl (Thrown ''Not a dir'')) = (manhattan a b \<noteq> 1)"
  using wrap_int_interior [OF assms] by (auto simp: Coord_minus_def manhattan_def)

lemma Coord_minus_returns_iff:
  assumes "interior b"
  shows "(\<exists>d. Coord_minus a b = Inr d) = (manhattan a b = 1)"
  using wrap_int_interior [OF assms] by (auto simp: Coord_minus_def manhattan_def)

text \<open>
  Claim C5, as the code has it. \<open>a - b\<close> is the direction that leads from \<open>b\<close> to \<open>a\<close>:
  for valid \<open>c\<close> and \<open>c + d\<close>, the direction between \<open>c + d\<close> and \<open>c\<close> is \<open>d\<close>, and the
  direction between \<open>c\<close> and \<open>c + d\<close> is the inverse of \<open>d\<close>.
\<close>

theorem direction_between_plus:
  assumes "valid c" and "valid (Coord_plus c d)"
  shows "Coord_minus (Coord_plus c d) c = Inr d \<and> Coord_minus c (Coord_plus c d) = Inr (Dir_neg d)"
  using assms by (simp add: Coord_minus_plus Coord_minus_plus_neg valid_interior)

theorem direction_between_plus_witness:
  "valid \<lparr>coord_x = 1, coord_y = 1\<rparr> \<and> valid (Coord_plus \<lparr>coord_x = 1, coord_y = 1\<rparr> up) \<and>
   Coord_minus (Coord_plus \<lparr>coord_x = 1, coord_y = 1\<rparr> up) \<lparr>coord_x = 1, coord_y = 1\<rparr> = Inr up \<and>
   Coord_minus \<lparr>coord_x = 1, coord_y = 1\<rparr> (Coord_plus \<lparr>coord_x = 1, coord_y = 1\<rparr> up) = Inr down"
proof -
  have v1: "valid \<lparr>coord_x = 1, coord_y = 1\<rparr>"
    by (simp add: valid_def global_w_def global_h_def)
  have v2: "valid (Coord_plus \<lparr>coord_x = 1, coord_y = 1\<rparr> up)"
    by (simp add: valid_def global_w_def global_h_def wrap_int_def)
  show ?thesis
    using v1 v2 direction_between_plus [OF v1 v2] by simp
qed

text \<open>
  Claim C5 as it is written fails: at the valid coordinate \<open>(1,1)\<close> and the direction
  \<open>up\<close>, \<open>(1,0)\<close> is valid and the direction between \<open>(1,1)\<close> and \<open>(1,0)\<close> is \<open>down\<close>.
\<close>

theorem direction_between_plus_counterexample:
  "valid \<lparr>coord_x = 1, coord_y = 1\<rparr> \<and> valid (Coord_plus \<lparr>coord_x = 1, coord_y = 1\<rparr> up) \<and>
   Coord_minus \<lparr>coord_x = 1, coord_y = 1\<rparr> (Coord_plus \<lparr>coord_x = 1, coord_y = 1\<rparr> up) \<noteq> Inr up"
  by (simp add: valid_def global_w_def global_h_def Coord_minus_def wrap_int_def)

text \<open>
  Claim C6, as the code has it. The direction between \<open>a\<close> and \<open>b\<close> throws
  \<^verbatim>\<open>"Not a dir"\<close> whenever \<open>a\<close> and \<open>b\<close> are equal and whenever they differ in both axes.
  When the components of \<open>b\<close> are strictly between \<open>INT_MIN\<close> and \<open>INT_MAX\<close>, as those of
  every valid coordinate and of its neighbours are, it throws exactly when the Manhattan
  distance of \<open>a\<close> and \<open>b\<close> is not 1, and returns a direction exactly when it is 1.
\<close>

theorem direction_between_undefined:
  "Coord_minus a a = Inl (Thrown ''Not a dir'') \<and>
   (coord_x a \<noteq> coord_x b \<and> coord_y a \<noteq> coord_y b \<longrightarrow>
      Coord_minus a b = Inl (Thrown ''Not a dir'')) \<and>
   (interior b \<longrightarrow>
      (Coord_minus a b = Inl (Thrown ''Not a dir'')) = (manhattan a b \<noteq> 1) \<and>
      (\<exists>d. Coord_minus a b = Inr d) = (manhattan a b = 1))"
  using Coord_minus_self [of a] Coord_minus_diagonal [of a b]
    Coord_minus_throws_iff [of b a] Coord_minus_returns_iff [of b a]
  by blast

theorem direction_between_undefined_witness:
  "interior \<lparr>coord_x = 1, coord_y = 1\<rparr> \<and>
   manhattan \<lparr>coord_x = 0, coord_y = 0\<rparr> \<lparr>coord_x = 1, coord_y = 1\<rparr> = 2 \<and>
   Coord_minus \<lparr>coord_x = 0, coord_y = 0\<rparr> \<lparr>coord_x = 1, coord_y = 1\<rparr> = Inl (Thrown ''Not a dir'') \<and>
   interior \<lparr>coord_x = 0, coord_y = 1\<rparr> \<and>
   manhattan \<lparr>coord_x = 0, coord_y = 0\<rparr> \<lparr>coord_x = 0, coord_y = 1\<rparr> = 1 \<and>
   Coord_minus \<lparr>coord_x = 0, coord_y = 0\<rparr> \<lparr>coord_x = 0, coord_y = 1\<rparr> = Inr up"
proof -
  have i1: "interior \<lparr>coord_x = 1, coord_y = 1\<rparr>" and i2: "interior \<lparr>coord_x = 0, coord_y = 1\<rparr>"
    by (simp_all add: interior_def INT_MIN_def INT_MAX_def)
  have m: "manhattan \<lparr>coord_x = 0, coord_y = 0\<rparr> \<lparr>coord_x = 1, coord_y = 1\<rparr> = 2"
    "manhattan \<lparr>coord_x = 0, coord_y = 0\<rparr> \<lparr>coord_x = 0, coord_y = 1\<rparr> = 1"
    by (simp_all add: manhattan_def)
  have "Coord_minus \<lparr>coord_x = 0, coord_y = 0\<rparr> \<lparr>coord_x = 1, coord_y = 1\<rparr> = Inl (Thrown ''Not a dir'')"
    using direction_between_undefined
      [of "\<lparr>coord_x = 0, coord_y = 0\<rparr>" "\<lparr>coord_x = 1, coord_y = 1\<rparr>"] i1 m
    by simp
  moreover have "Coord_minus \<lparr>coord_x = 0, coord_y = 0\<rparr> \<lparr>coord_x = 0, coord_y = 1\<rparr> = Inr up"
    by (simp add: Coord_minus_def wrap_int_def)
  ultimately show ?thesis using i1 i2 m by simp
qed

text \<open>
  Claim C6 as it is written fails where the arithmetic wraps: \<open>(0, INT_MAX)\<close> and
  \<open>(0, INT_MIN)\<close> are \<open>2^32 - 1\<close> apart, and the direction between them is \<open>up\<close>.
\<close>

theorem direction_between_undefined_counterexample:
  "manhattan \<lparr>coord_x = 0, coord_y = INT_MAX\<rparr> \<lparr>coord_x = 0, coord_y = INT_MIN\<rparr> = 4294967295 \<and>
   Coord_minus \<lparr>coord_x = 0, coord_y = INT_MAX\<rparr> \<lparr>coord_x = 0, coord_y = INT_MIN\<rparr> = Inr up"
  by (simp add: manhattan_def Coord_minus_def wrap_int_def INT_MIN_def INT_MAX_def)

subsection \<open>Whole-grid enumeration\<close>

lemma global_w_pos: "0 < global_w" by (simp add: global_w_def)
lemma global_h_pos: "0 < global_h" by (simp add: global_h_def)

lemma iterator_neq_iff:
  "iterator_neq \<lparr>coord = \<lparr>coord_x = i, coord_y = j\<rparr>\<rparr> CoordRange_end = (i \<noteq> 0 \<or> j \<noteq> global_h)"
  by (simp add: iterator_neq_def Coord_neq_def Coord_eq_def CoordRange_end_def)

lemma iterator_inc_simp:
  "iterator_inc \<lparr>coord = \<lparr>coord_x = i, coord_y = j\<rparr>\<rparr> =
     (if i + 1 = global_w then \<lparr>coord = \<lparr>coord_x = 0, coord_y = j + 1\<rparr>\<rparr>
      else \<lparr>coord = \<lparr>coord_x = i + 1, coord_y = j\<rparr>\<rparr>)"
  by (simp add: iterator_inc_def Let_def)

lemma range_loop_row:
  assumes "0 \<le> i" "i < global_w" "j \<noteq> global_h"
  shows "range_loop \<lparr>coord = \<lparr>coord_x = i, coord_y = j\<rparr>\<rparr> vs =
         range_loop \<lparr>coord = \<lparr>coord_x = 0, coord_y = j + 1\<rparr>\<rparr>
           (vs @ map (\<lambda>i. \<lparr>coord_x = i, coord_y = j\<rparr>) [i..global_w - 1])"
  using assms
proof (induction "nat (global_w - i)" arbitrary: i vs)
  case 0
  then show ?case by simp
next
  case (Suc n)
  have step: "range_loop \<lparr>coord = \<lparr>coord_x = i, coord_y = j\<rparr>\<rparr> vs =
     range_loop (iterator_inc \<lparr>coord = \<lparr>coord_x = i, coord_y = j\<rparr>\<rparr>) (vs @ [\<lparr>coord_x = i, coord_y = j\<rparr>])"
    using Suc.prems by (subst range_loop.simps) (simp add: iterator_neq_iff iterator_deref_def)
  show ?case
  proof (cases "i + 1 = global_w")
    case True
    then have "[i..global_w - 1] = [i]" by (simp add: upto_rec1)
    with True step show ?thesis by (simp add: iterator_inc_simp)
  next
    case False
    with Suc.prems have lt: "i + 1 < global_w" by simp
    have n: "n = nat (global_w - (i + 1))" using Suc.hyps(2) by simp
    have up: "[i..global_w - 1] = i # [i + 1..global_w - 1]"
      using lt by (simp add: upto_rec1)
    have "range_loop \<lparr>coord = \<lparr>coord_x = i + 1, coord_y = j\<rparr>\<rparr> (vs @ [\<lparr>coord_x = i, coord_y = j\<rparr>]) =
         range_loop \<lparr>coord = \<lparr>coord_x = 0, coord_y = j + 1\<rparr>\<rparr>
           ((vs @ [\<lparr>coord_x = i, coord_y = j\<rparr>]) @ map (\<lambda>i. \<lparr>coord_x = i, coord_y = j\<rparr>) [i + 1..global_w - 1])"
      using Suc.hyps(1) [OF n] lt Suc.prems by simp
    with step False up show ?thesis by (simp add: iterator_inc_simp)
  qed
qed

lemma range_loop_rows:
  assumes "0 \<le> j" "j \<le> global_h"
  shows "range_loop \<lparr>coord = \<lparr>coord_x = 0, coord_y = j\<rparr>\<rparr> vs =
         Some (vs @ concat (map (\<lambda>j. map (\<lambda>i. \<lparr>coord_x = i, coord_y = j\<rparr>) [0..global_w - 1]) [j..global_h - 1]))"
  using assms
proof (induction "nat (global_h - j)" arbitrary: j vs)
  case 0
  then have "j = global_h" by simp
  then show ?case
    by (subst range_loop.simps) (simp add: iterator_neq_iff)
next
  case (Suc n)
  then have lt: "j < global_h" by simp
  have n: "n = nat (global_h - (j + 1))" using Suc.hyps(2) by simp
  have up: "[j..global_h - 1] = j # [j + 1..global_h - 1]"
    using lt by (simp add: upto_rec1)
  have "range_loop \<lparr>coord = \<lparr>coord_x = 0, coord_y = j\<rparr>\<rparr> vs =
        range_loop \<lparr>coord = \<lparr>coord_x = 0, coord_y = j + 1\<rparr>\<rparr>
           (vs @ map (\<lambda>i. \<lparr>coord_x = i, coord_y = j\<rparr>) [0..global_w - 1])"
    using lt global_w_pos by (intro range_loop_row) simp_all
  also have "\<dots> = Some ((vs @ map (\<lambda>i. \<lparr>coord_x = i, coord_y = j\<rparr>) [0..global_w - 1]) @
      concat (map (\<lambda>j. map (\<lambda>i. \<lparr>coord_x = i, coord_y = j\<rparr>) [0..global_w - 1]) [j + 1..global_h - 1]))"
    using Suc.hyps(1) [OF n] lt Suc.prems by simp
  finally show ?case using up by simp
qed

lemma nested_loops_product:
  "nested_loops W H =
     map (\<lambda>(j, i). \<lparr>coord_x = i, coord_y = j\<rparr>) (List.product [0..H - 1] [0..W - 1])"
  by (simp add: nested_loops_def product_concat_map map_concat comp_def)

lemma set_nested_loops:
  "set (nested_loops W H) = {c. 0 \<le> coord_x c \<and> coord_x c < W \<and> 0 \<le> coord_y c \<and> coord_y c < H}"
proof (intro set_eqI iffI)
  fix c :: Coord assume "c \<in> set (nested_loops W H)"
  then show "c \<in> {c. 0 \<le> coord_x c \<and> coord_x c < W \<and> 0 \<le> coord_y c \<and> coord_y c < H}"
    by (auto simp: nested_loops_def)
next
  fix c :: Coord assume c: "c \<in> {c. 0 \<le> coord_x c \<and> coord_x c < W \<and> 0 \<le> coord_y c \<and> coord_y c < H}"
  have "c = (\<lambda>(j, i). \<lparr>coord_x = i, coord_y = j\<rparr>) (coord_y c, coord_x c)" by simp
  moreover have "(coord_y c, coord_x c) \<in> set (List.product [0..H - 1] [0..W - 1])"
    using c by simp
  ultimately show "c \<in> set (nested_loops W H)"
    unfolding nested_loops_product set_map by (rule image_eqI)
qed

lemma length_nested_loops:
  "0 \<le> W \<Longrightarrow> 0 \<le> H \<Longrightarrow> length (nested_loops W H) = nat (W * H)"
  by (simp add: nested_loops_product nat_mult_distrib mult.commute)

lemma distinct_nested_loops: "distinct (nested_loops W H)"
  unfolding nested_loops_product
  by (simp add: distinct_map distinct_product inj_on_def)

text \<open>
  Claim C8. The loop over \<open>coords\<close> ends, and the coordinates it visits are those of the
  nested loops \<open>for y in 0..h-1: for x in 0..w-1\<close>, in that order: \<open>w * h\<close> of them, all
  distinct, all valid, and every valid coordinate among them. A loop started again after
  any number of visits sees the same sequence once more.
\<close>

theorem coords_enumeration:
  "coords = Some (nested_loops global_w global_h) \<and>
   length (nested_loops global_w global_h) = nat (global_w * global_h) \<and>
   distinct (nested_loops global_w global_h) \<and>
   (\<forall>c \<in> set (nested_loops global_w global_h). valid c) \<and>
   (\<forall>c. valid c \<longrightarrow> c \<in> set (nested_loops global_w global_h)) \<and>
   (\<forall>visited. range_loop CoordRange_begin visited =
      Some (visited @ nested_loops global_w global_h))"
proof -
  have run: "range_loop CoordRange_begin visited =
      Some (visited @ nested_loops global_w global_h)" for visited
    unfolding CoordRange_begin_def nested_loops_def
    using global_h_pos by (intro range_loop_rows) simp_all
  have len: "length (nested_loops global_w global_h) = nat (global_w * global_h)"
    using global_w_pos global_h_pos by (intro length_nested_loops) simp_all
  have mem: "(c \<in> set (nested_loops global_w global_h)) = valid c" for c
    by (auto simp: set_nested_loops valid_def)
  from run [of "[]"] have "coords = Some (nested_loops global_w global_h)"
    by (simp add: coords_def)
  with run len mem show ?thesis
    by (simp add: distinct_nested_loops)
qed

theorem coords_enumeration_witness:
  "valid \<lparr>coord_x = 29, coord_y = 0\<rparr> \<and>
   \<lparr>coord_x = 29, coord_y = 0\<rparr> \<in> set (nested_loops global_w global_h) \<and>
   length (nested_loops global_w global_h) = 900 \<and>
   range_loop CoordRange_begin (nested_loops global_w global_h) =
     Some (nested_loops global_w global_h @ nested_loops global_w global_h)"
proof -
  have v: "valid \<lparr>coord_x = 29, coord_y = 0\<rparr>"
    by (simp add: valid_def global_w_def global_h_def)
  have "nat (global_w * global_h) = 900"
    by (simp add: global_w_def global_h_def)
  with v show ?thesis
    using coords_enumeration by simp
qed

section \<open>Arrays on the heap: lemmas\<close>

text \<open>The definitions that evaluate a heap access on concrete arrays.\<close>

lemmas heap_defs = array_at_def new_array_def load_def store_def std_fill_def

lemma array_at_Some_iff:
  "(array_at hp (Some a) = Some arr) = (a < length hp \<and> hp ! a = Some arr)"
  by (simp add: array_at_def)

lemma array_at_update_same:
  "a < length hp \<Longrightarrow> array_at (hp[a := x]) (Some a) = x"
  by (simp add: array_at_def)

lemma array_at_update_other:
  "p \<noteq> Some a \<Longrightarrow> array_at (hp[a := x]) p = array_at hp p"
  by (cases p) (auto simp: array_at_def)

lemma store_Inr:
  assumes "array_at hp (Some a) = Some arr" and "0 \<le> i" and "i < int (length arr)"
  shows "store hp (Some a) i v = Inr (hp[a := Some (arr[nat i := Some v])])"
  using assms by (simp add: store_def)

lemma store_InrD:
  assumes "store hp p i v = Inr hp'"
  obtains a arr where "p = Some a" and "array_at hp p = Some arr"
    and "0 \<le> i" and "i < int (length arr)"
    and "hp' = hp[a := Some (arr[nat i := Some v])]"
  using assms by (auto simp: store_def split: option.splits if_splits)

lemma load_store_same:
  assumes "store hp p i v = Inr hp'"
  shows "load hp' p i = Inr v"
  using assms
  by (elim store_InrD) (simp add: load_def array_at_update_same array_at_Some_iff)

lemma load_store_other:
  assumes "store hp p i v = Inr hp'" and "j \<noteq> i"
  shows "load hp' p j = load hp p j"
proof -
  from assms(1) obtain a arr where p: "p = Some a" and arr: "array_at hp p = Some arr"
    and i: "0 \<le> i" "i < int (length arr)"
    and hp': "hp' = hp[a := Some (arr[nat i := Some v])]"
    by (rule store_InrD)
  from arr p have "a < length hp" by (simp add: array_at_Some_iff)
  then have arr': "array_at hp' p = Some (arr[nat i := Some v])"
    by (simp add: p hp' array_at_update_same)
  have "(arr[nat i := Some v]) ! nat j = arr ! nat j" if "0 \<le> j"
    using that assms(2) i by (simp add: nat_eq_iff)
  then show ?thesis
    by (simp add: load_def arr arr')
qed

lemma load_store_elsewhere:
  assumes "store hp p i v = Inr hp'" and "q \<noteq> p"
  shows "load hp' q j = load hp q j"
  using assms
  by (elim store_InrD) (simp add: load_def array_at_update_other)

lemma array_at_store:
  assumes "store hp p i v = Inr hp'" and "array_at hp p = Some arr"
  shows "array_at hp' p = Some (arr[nat i := Some v])"
  using assms
  by (elim store_InrD) (simp add: array_at_update_same array_at_Some_iff)

section \<open>Grid: theorems\<close>

lemma new_array_Inr:
  "0 \<le> n \<Longrightarrow> new_array hp n = Inr (Some (length hp), hp @ [Some (replicate (nat n) None)])"
  by (simp add: new_array_def)

lemma Grid_new_Inr:
  assumes "0 \<le> wrap_int (W * H)"
  shows "Grid_new v W H hp =
     Inr (\<lparr>Grid_data = Some (length hp), Grid_w = W, Grid_h = H\<rparr>,
          hp @ [Some (replicate (nat (wrap_int (W * H))) (Some v))])"
  using assms by (simp add: Grid_new_def new_array_def std_fill_def array_at_def)

lemma Grid_new_Inl:
  assumes "wrap_int (W * H) < 0"
  shows "Grid_new v W H hp = Inl Bad_array_new_length"
  using assms by (simp add: Grid_new_def new_array_def)

text \<open>A product in \<open>[0, INT_MAX]\<close> does not wrap.\<close>

lemma wrap_int_product:
  assumes "0 \<le> W * H" and "W * H \<le> INT_MAX"
  shows "wrap_int (W * H) = W * H"
  using assms by (intro wrap_int_id) (simp_all add: INT_MIN_def)

lemma Grid_new_exact:
  assumes "0 \<le> W * H" and "W * H \<le> INT_MAX"
  shows "Grid_new v W H hp =
     Inr (\<lparr>Grid_data = Some (length hp), Grid_w = W, Grid_h = H\<rparr>,
          hp @ [Some (replicate (nat (W * H)) (Some v))])"
  using Grid_new_Inr [of W H v hp] wrap_int_product [OF assms] assms(1) by simp

text \<open>For a grid of the default dimensions, its coordinates are the valid ones.\<close>

lemma in_grid_default:
  "Grid_w g = global_w \<Longrightarrow> Grid_h g = global_h \<Longrightarrow> in_grid g a = valid a"
  by (auto simp: in_grid_def valid_def)

text \<open>The index \<open>x + w * y\<close> is inside the buffer, and distinct coordinates have distinct indices.\<close>

lemma Grid_index_bounds:
  assumes "in_grid g a"
  shows "0 \<le> coord_x a + Grid_w g * coord_y a \<and> coord_x a + Grid_w g * coord_y a < Grid_w g * Grid_h g"
proof -
  from assms have x: "0 \<le> coord_x a" "coord_x a < Grid_w g" and y: "0 \<le> coord_y a" "coord_y a + 1 \<le> Grid_h g"
    by (simp_all add: in_grid_def)
  have "0 \<le> Grid_w g * coord_y a" using x y by simp
  moreover have "Grid_w g * (coord_y a + 1) \<le> Grid_w g * Grid_h g"
    using x y(2) by (intro mult_left_mono) simp_all
  ultimately show ?thesis using x by (simp add: distrib_left)
qed

text \<open>When \<open>w * h\<close> does not overflow, neither does the index of a coordinate of the grid.\<close>

lemma Grid_index_exact:
  assumes "in_grid g a" and "Grid_w g * Grid_h g \<le> INT_MAX"
  shows "wrap_int (coord_x a + wrap_int (Grid_w g * coord_y a)) = coord_x a + Grid_w g * coord_y a"
proof -
  from assms(1) have x: "0 \<le> coord_x a" "coord_x a < Grid_w g" and y: "0 \<le> coord_y a"
    by (simp_all add: in_grid_def)
  have p: "0 \<le> Grid_w g * coord_y a" using x y by simp
  from Grid_index_bounds [OF assms(1)] assms(2)
  have i: "0 \<le> coord_x a + Grid_w g * coord_y a" "coord_x a + Grid_w g * coord_y a \<le> INT_MAX"
    by simp_all
  from p i x have "Grid_w g * coord_y a \<le> INT_MAX" by simp
  with p have "wrap_int (Grid_w g * coord_y a) = Grid_w g * coord_y a"
    by (intro wrap_int_id) (simp_all add: INT_MIN_def)
  moreover from i have "wrap_int (coord_x a + Grid_w g * coord_y a) = coord_x a + Grid_w g * coord_y a"
    by (intro wrap_int_id) (simp_all add: INT_MIN_def)
  ultimately show ?thesis by simp
qed

lemma Grid_index_inj:
  assumes "in_grid g a" and "in_grid g b"
    and "coord_x a + Grid_w g * coord_y a = coord_x b + Grid_w g * coord_y b"
  shows "a = b"
proof -
  from assms(1,2) have a: "0 \<le> coord_x a" "coord_x a < Grid_w g"
    and b: "0 \<le> coord_x b" "coord_x b < Grid_w g"
    by (simp_all add: in_grid_def)
  have "(coord_x a + Grid_w g * coord_y a) mod Grid_w g = coord_x a"
    using a by simp
  moreover have "(coord_x b + Grid_w g * coord_y b) mod Grid_w g = coord_x b"
    using b by simp
  ultimately have x: "coord_x a = coord_x b" using assms(3) by simp
  with assms(3) a have "coord_y a = coord_y b" by simp
  with x show ?thesis by simp
qed

lemma Grid_inv_new:
  assumes "0 \<le> W * H" and "W * H \<le> INT_MAX"
  shows "Grid_inv \<lparr>Grid_data = Some (length hp), Grid_w = W, Grid_h = H\<rparr>
           (hp @ [Some (replicate (nat (W * H)) (Some v))])"
  using assms by (simp add: Grid_inv_def array_at_def)

lemma Grid_get_new:
  assumes "0 \<le> W * H" and "W * H \<le> INT_MAX"
    and "in_grid \<lparr>Grid_data = Some (length hp), Grid_w = W, Grid_h = H\<rparr> a"
  shows "Grid_get \<lparr>Grid_data = Some (length hp), Grid_w = W, Grid_h = H\<rparr>
           (hp @ [Some (replicate (nat (W * H)) (Some v))]) a = Inr v"
proof -
  let ?g = "\<lparr>Grid_data = Some (length hp), Grid_w = W, Grid_h = H\<rparr>"
  from Grid_index_bounds [OF assms(3)]
  have b: "0 \<le> coord_x a + W * coord_y a" "coord_x a + W * coord_y a < W * H" by simp_all
  from Grid_index_exact [OF assms(3)] assms(2)
  have "wrap_int (coord_x a + wrap_int (W * coord_y a)) = coord_x a + W * coord_y a" by simp
  with b show ?thesis
    by (simp add: Grid_get_def load_def array_at_def)
qed

lemma Grid_set_get:
  assumes "Grid_inv g hp" and "in_grid g a"
  shows "\<exists>hp'. Grid_set g hp a v = Inr hp' \<and> Grid_inv g hp' \<and> Grid_get g hp' a = Inr v \<and>
           (\<forall>b. in_grid g b \<and> b \<noteq> a \<longrightarrow> Grid_get g hp' b = Grid_get g hp b)"
proof -
  from assms(1) obtain p arr where p: "Grid_data g = Some p"
    and arr: "array_at hp (Some p) = Some arr"
    and len: "int (length arr) = Grid_w g * Grid_h g"
    and fits: "Grid_w g * Grid_h g \<le> INT_MAX"
    by (cases "Grid_data g") (auto simp: Grid_inv_def array_at_def split: option.splits if_splits)
  let ?i = "coord_x a + Grid_w g * coord_y a"
  have ia: "wrap_int (coord_x a + wrap_int (Grid_w g * coord_y a)) = ?i"
    by (rule Grid_index_exact [OF assms(2) fits])
  from Grid_index_bounds [OF assms(2)] len have i: "0 \<le> ?i" "?i < int (length arr)" by simp_all
  define hp' where "hp' = hp[p := Some (arr[nat ?i := Some v])]"
  have st: "store hp (Grid_data g) ?i v = Inr hp'"
    unfolding p hp'_def by (rule store_Inr [OF arr i])
  then have set: "Grid_set g hp a v = Inr hp'" by (simp add: Grid_set_def ia)
  have "array_at hp' (Grid_data g) = Some (arr[nat ?i := Some v])"
    using array_at_store [OF st] arr p by simp
  then have inv: "Grid_inv g hp'" using len fits by (simp add: Grid_inv_def)
  have same: "Grid_get g hp' a = Inr v"
    unfolding Grid_get_def ia by (rule load_store_same [OF st])
  have other: "Grid_get g hp' b = Grid_get g hp b" if "in_grid g b" "b \<noteq> a" for b
  proof -
    have ib: "wrap_int (coord_x b + wrap_int (Grid_w g * coord_y b)) = coord_x b + Grid_w g * coord_y b"
      by (rule Grid_index_exact [OF that(1) fits])
    have "coord_x b + Grid_w g * coord_y b \<noteq> ?i"
      using Grid_index_inj [OF that(1) assms(2)] that(2) by blast
    then show ?thesis
      unfolding Grid_get_def ib by (rule load_store_other [OF st])
  qed
  from set inv same other show ?thesis by blast
qed

text \<open>The copy constructor of \<open>Grid\<close> allocates a buffer of its own.\<close>

lemma Grid_copy_new_buffer:
  assumes "array_at hp (Grid_data g) = Some arr" and "int (length arr) = Grid_w g * Grid_h g"
    and "Grid_w g * Grid_h g \<le> INT_MAX"
  shows "Grid_copy g hp =
     Inr (\<lparr>Grid_data = Some (length hp), Grid_w = Grid_w g, Grid_h = Grid_h g\<rparr>, hp @ [Some arr])"
proof -
  from assms(1) obtain a where a: "Grid_data g = Some a" "a < length hp" "hp ! a = Some arr"
    by (cases "Grid_data g") (auto simp: array_at_def split: if_splits)
  have n: "0 \<le> Grid_w g * Grid_h g" using assms(2) [symmetric] by simp
  have w: "wrap_int (Grid_w g * Grid_h g) = int (length arr)"
    using wrap_int_product [OF n assms(3)] assms(2) by simp
  show ?thesis
    using a by (simp add: Grid_copy_def std_copy_def heap_defs nth_append w)
qed

text \<open>
  Claim C9, as the code has it. For dimensions \<open>(W,H)\<close> whose product is in
  \<open>[0, INT_MAX]\<close>, so that \<open>w*h\<close> does not overflow, constructing a grid with the initial
  value \<open>v\<close> succeeds; the grid has width \<open>W\<close>, height \<open>H\<close> and \<open>size() = W * H\<close>, and
  reading it at any of its coordinates gives \<open>v\<close>. In every state of a grid that owns a
  buffer of \<open>w * h \<le> INT_MAX\<close> elements (the new grid is one, and \<open>set\<close> keeps it so),
  writing \<open>x\<close> at a coordinate \<open>c\<close> of the grid succeeds, reading at \<open>c\<close> then gives \<open>x\<close>,
  and reading at any other coordinate of the grid gives what it gave before.
\<close>

theorem Grid_construct_get_set:
  "(0 \<le> W * H \<and> W * H \<le> INT_MAX \<longrightarrow>
      (\<exists>g0 hp1. Grid_new v W H hp0 = Inr (g0, hp1) \<and>
         Grid_w g0 = W \<and> Grid_h g0 = H \<and> Grid_size g0 = W * H \<and> Grid_inv g0 hp1 \<and>
         (\<forall>c. in_grid g0 c \<longrightarrow> Grid_get g0 hp1 c = Inr v))) \<and>
   (Grid_inv g hp \<and> in_grid g c \<longrightarrow>
      (\<exists>hp'. Grid_set g hp c x = Inr hp' \<and> Grid_inv g hp' \<and> Grid_get g hp' c = Inr x \<and>
         (\<forall>c'. in_grid g c' \<and> c' \<noteq> c \<longrightarrow> Grid_get g hp' c' = Grid_get g hp c')))"
proof (intro conjI impI)
  assume "0 \<le> W * H \<and> W * H \<le> INT_MAX"
  then have nn: "0 \<le> W * H" and fits: "W * H \<le> INT_MAX" by simp_all
  let ?g = "\<lparr>Grid_data = Some (length hp0), Grid_w = W, Grid_h = H\<rparr>"
  let ?hp = "hp0 @ [Some (replicate (nat (W * H)) (Some v))]"
  have "Grid_new v W H hp0 = Inr (?g, ?hp)"
    by (rule Grid_new_exact [OF nn fits])
  moreover have "Grid_size ?g = W * H"
    using wrap_int_product [OF nn fits] by (simp add: Grid_size_def)
  moreover have "Grid_inv ?g ?hp"
    by (rule Grid_inv_new [OF nn fits])
  moreover have "\<forall>c. in_grid ?g c \<longrightarrow> Grid_get ?g ?hp c = Inr v"
    by (intro allI impI) (rule Grid_get_new [OF nn fits])
  ultimately show "\<exists>g0 hp1. Grid_new v W H hp0 = Inr (g0, hp1) \<and>
         Grid_w g0 = W \<and> Grid_h g0 = H \<and> Grid_size g0 = W * H \<and> Grid_inv g0 hp1 \<and>
         (\<forall>c. in_grid g0 c \<longrightarrow> Grid_get g0 hp1 c = Inr v)"
    by (intro exI [of _ ?g] exI [of _ ?hp]) simp
next
  assume "Grid_inv g hp \<and> in_grid g c"
  then show "\<exists>hp'. Grid_set g hp c x = Inr hp' \<and> Grid_inv g hp' \<and> Grid_get g hp' c = Inr x \<and>
         (\<forall>c'. in_grid g c' \<and> c' \<noteq> c \<longrightarrow> Grid_get g hp' c' = Grid_get g hp c')"
    using Grid_set_get [of g hp c x] by blast
qed

text \<open>The witness: a 2 by 3 grid of zeros, written at \<open>(1,2)\<close>.\<close>

theorem Grid_construct_get_set_witness:
  "(0::int) \<le> 2 * 3 \<and> (2::int) * 3 \<le> INT_MAX \<and>
   Grid_new (0::int) 2 3 [] =
     Inr (\<lparr>Grid_data = Some 0, Grid_w = 2, Grid_h = 3\<rparr>, [Some (replicate 6 (Some 0))]) \<and>
   Grid_size \<lparr>Grid_data = Some 0, Grid_w = 2, Grid_h = 3\<rparr> = 6 \<and>
   in_grid \<lparr>Grid_data = Some 0, Grid_w = 2, Grid_h = 3\<rparr> \<lparr>coord_x = 1, coord_y = 2\<rparr> \<and>
   Grid_inv \<lparr>Grid_data = Some 0, Grid_w = 2, Grid_h = 3\<rparr> [Some (replicate 6 (Some (0::int)))] \<and>
   Grid_get \<lparr>Grid_data = Some 0, Grid_w = 2, Grid_h = 3\<rparr> [Some (replicate 6 (Some (0::int)))]
     \<lparr>coord_x = 1, coord_y = 2\<rparr> = Inr 0 \<and>
   Grid_set \<lparr>Grid_data = Some 0, Grid_w = 2, Grid_h = 3\<rparr> [Some (replicate 6 (Some (0::int)))]
     \<lparr>coord_x = 1, coord_y = 2\<rparr> 7 =
     Inr [Some [Some 0, Some 0, Some 0, Some 0, Some 0, Some 7]] \<and>
   Grid_get \<lparr>Grid_data = Some 0, Grid_w = 2, Grid_h = 3\<rparr>
     [Some [Some 0, Some 0, Some 0, Some 0, Some 0, Some (7::int)]] \<lparr>coord_x = 1, coord_y = 2\<rparr> = Inr 7 \<and>
   Grid_get \<lparr>Grid_data = Some 0, Grid_w = 2, Grid_h = 3\<rparr>
     [Some [Some 0, Some 0, Some 0, Some 0, Some 0, Some (7::int)]] \<lparr>coord_x = 0, coord_y = 2\<rparr> = Inr 0"
proof -
  let ?g = "\<lparr>Grid_data = Some 0, Grid_w = 2, Grid_h = 3\<rparr>"
  let ?zeros = "[Some (replicate 6 (Some (0::int)))]"
  let ?after = "[Some [Some 0, Some 0, Some 0, Some 0, Some 0, Some (7::int)]]"
  have fits: "(0::int) \<le> 2 * 3 \<and> (2::int) * 3 \<le> INT_MAX"
    by (simp add: INT_MAX_def)
  have new: "Grid_new (0::int) 2 3 [] = Inr (?g, ?zeros)"
    by (simp add: Grid_new_def heap_defs wrap_int_def)
  have c: "in_grid ?g \<lparr>coord_x = 1, coord_y = 2\<rparr>" and c': "in_grid ?g \<lparr>coord_x = 0, coord_y = 2\<rparr>"
    by (simp_all add: in_grid_def)
  have wr: "Grid_set ?g ?zeros \<lparr>coord_x = 1, coord_y = 2\<rparr> 7 = Inr ?after"
    by (simp add: Grid_set_def heap_defs wrap_int_def numeral_eq_Suc)
  have before: "Grid_get ?g ?zeros \<lparr>coord_x = 0, coord_y = 2\<rparr> = Inr 0"
    by (simp add: Grid_get_def heap_defs wrap_int_def numeral_eq_Suc)
  note inst = Grid_construct_get_set [of 2 3 "0::int" "[]" ?g ?zeros "\<lparr>coord_x = 1, coord_y = 2\<rparr>" 7]
  from inst fits new c have size: "Grid_size ?g = 6" and inv: "Grid_inv ?g ?zeros"
    and get0: "Grid_get ?g ?zeros \<lparr>coord_x = 1, coord_y = 2\<rparr> = Inr 0"
    by auto
  from inst inv c wr have
    "Grid_get ?g ?after \<lparr>coord_x = 1, coord_y = 2\<rparr> = Inr 7"
    and "Grid_get ?g ?after \<lparr>coord_x = 0, coord_y = 2\<rparr> = Grid_get ?g ?zeros \<lparr>coord_x = 0, coord_y = 2\<rparr>"
    using c' by auto
  with fits new size c inv get0 wr before show ?thesis by simp
qed

text \<open>
  Claim C9 as it is written fails where \<open>w*h\<close> overflows. \<open>65536 * 65536\<close> wraps to 0:
  the grid is constructed with an empty buffer, \<open>size()\<close> is 0, and \<open>(0,0)\<close>, a coordinate
  of the grid, is read out of bounds. \<open>46341 * 46341\<close> wraps to a negative number, and
  the construction throws.
\<close>

theorem Grid_construct_overflow_counterexample:
  "Grid_new (7::int) 65536 65536 [] =
     Inr (\<lparr>Grid_data = Some 0, Grid_w = 65536, Grid_h = 65536\<rparr>, [Some []]) \<and>
   Grid_size \<lparr>Grid_data = Some 0, Grid_w = 65536, Grid_h = 65536\<rparr> = 0 \<and>
   in_grid \<lparr>Grid_data = Some 0, Grid_w = 65536, Grid_h = 65536\<rparr> \<lparr>coord_x = 0, coord_y = 0\<rparr> \<and>
   Grid_get \<lparr>Grid_data = Some 0, Grid_w = 65536, Grid_h = 65536\<rparr> ([Some []] :: int heap)
     \<lparr>coord_x = 0, coord_y = 0\<rparr> = Inl Undefined_behaviour \<and>
   Grid_new (7::int) 46341 46341 [] = Inl Bad_array_new_length"
  by (simp add: Grid_new_def Grid_size_def Grid_get_def in_grid_def heap_defs wrap_int_def)

text \<open>
  Claim C3, as the code has it. The constructor checks nothing: it fails exactly when the
  \<^verbatim>\<open>int\<close> product \<open>w*h\<close> is negative, and then by the exception of \<^verbatim>\<open>new T[w*h]\<close>;
  otherwise it returns a grid whose \<open>size()\<close> is that product. When \<open>W * H\<close> does not
  overflow, the product is negative exactly when one dimension is negative and the other
  positive: a zero dimension and two negative dimensions give a grid.
\<close>

theorem Grid_new_fails_iff:
  "(Grid_new v W H hp = Inl Bad_array_new_length) = (wrap_int (W * H) < 0) \<and>
   (\<exists>e. Grid_new v W H hp = Inl e) = (wrap_int (W * H) < 0) \<and>
   (0 \<le> wrap_int (W * H) \<longrightarrow>
      (\<exists>g hp'. Grid_new v W H hp = Inr (g, hp') \<and> Grid_size g = wrap_int (W * H))) \<and>
   (INT_MIN \<le> W * H \<and> W * H \<le> INT_MAX \<longrightarrow>
      (wrap_int (W * H) < 0) = (W < 0 \<and> 0 < H \<or> 0 < W \<and> H < 0))"
proof -
  have exact: "(wrap_int (W * H) < 0) = (W < 0 \<and> 0 < H \<or> 0 < W \<and> H < 0)"
    if "INT_MIN \<le> W * H \<and> W * H \<le> INT_MAX"
  proof -
    from that have "wrap_int (W * H) = W * H" by (intro wrap_int_id) simp_all
    then show ?thesis by (auto simp: mult_less_0_iff)
  qed
  show ?thesis
  proof (cases "wrap_int (W * H) < 0")
    case True
    with exact Grid_new_Inl [OF True, of v hp] show ?thesis by simp
  next
    case False
    then have nn: "0 \<le> wrap_int (W * H)" by simp
    from Grid_new_Inr [OF nn, of v hp] False exact show ?thesis
      by (simp add: Grid_size_def)
  qed
qed

text \<open>
  The witness: \<open>0 * 5\<close> gives an empty grid, \<open>-1 * 1\<close> fails, and so does
  \<open>46341 * 46341\<close>, which overflows.
\<close>

theorem Grid_new_fails_iff_witness:
  "INT_MIN \<le> 0 * 5 \<and> (0::int) * 5 \<le> INT_MAX \<and> 0 \<le> wrap_int (0 * 5) \<and>
   Grid_new (7::int) 0 5 [] = Inr (\<lparr>Grid_data = Some 0, Grid_w = 0, Grid_h = 5\<rparr>, [Some []]) \<and>
   Grid_size \<lparr>Grid_data = Some 0, Grid_w = 0, Grid_h = 5\<rparr> = 0 \<and>
   wrap_int (- 1 * 1) < 0 \<and>
   Grid_new (7::int) (- 1) 1 [] = Inl Bad_array_new_length \<and>
   wrap_int (46341 * 46341) < 0 \<and>
   Grid_new (7::int) 46341 46341 [] = Inl Bad_array_new_length"
  using Grid_new_fails_iff [of "7::int" 0 5 "[]"] Grid_new_fails_iff [of "7::int" "- 1" 1 "[]"]
    Grid_new_fails_iff [of "7::int" 46341 46341 "[]"]
  by (simp add: Grid_new_def heap_defs Grid_size_def wrap_int_def INT_MIN_def INT_MAX_def)

text \<open>
  Claim C3 as it is written fails: a width of 0, and a width of -2 with a height of -3,
  both give a grid.
\<close>

theorem Grid_new_nonpositive_counterexample:
  "Grid_new (7::int) 0 5 [] = Inr (\<lparr>Grid_data = Some 0, Grid_w = 0, Grid_h = 5\<rparr>, [Some []]) \<and>
   Grid_new (7::int) (- 2) (- 3) [] =
     Inr (\<lparr>Grid_data = Some 0, Grid_w = - 2, Grid_h = - 3\<rparr>, [Some (replicate 6 (Some 7))])"
  by (simp add: Grid_new_def heap_defs wrap_int_def)

text \<open>
  Claim C2, evaluated on the code. The move constructor hands the buffer over and nulls
  the pointer of the source, but the width and the height of the new grid are what its
  storage held, not those of the source, and the source keeps its own (it can still be
  destroyed: \<^verbatim>\<open>delete[]\<close> of the null pointer does nothing). After
  \<^verbatim>\<open>Grid<int> g(0, 2, 3); Grid<int> g2(std::move(g));\<close> on zeroed storage, \<open>g2.size()\<close> is
  0 and \<open>g.size()\<close> is still 6.
\<close>

theorem Grid_move_dimensions:
  "Grid_data (fst (Grid_move raw that)) = Grid_data that \<and>
   Grid_w (fst (Grid_move raw that)) = Grid_w raw \<and>
   Grid_h (fst (Grid_move raw that)) = Grid_h raw \<and>
   Grid_data (snd (Grid_move raw that)) = None \<and>
   Grid_size (snd (Grid_move raw that)) = Grid_size that \<and>
   Grid_destroy (snd (Grid_move raw that)) hp = Inr hp \<and>
   Grid_new (0::int) 2 3 [] =
     Inr (\<lparr>Grid_data = Some 0, Grid_w = 2, Grid_h = 3\<rparr>, [Some (replicate 6 (Some 0))]) \<and>
   Grid_move \<lparr>Grid_data = None, Grid_w = 0, Grid_h = 0\<rparr> \<lparr>Grid_data = Some 0, Grid_w = 2, Grid_h = 3\<rparr> =
     (\<lparr>Grid_data = Some 0, Grid_w = 0, Grid_h = 0\<rparr>, \<lparr>Grid_data = None, Grid_w = 2, Grid_h = 3\<rparr>) \<and>
   Grid_size \<lparr>Grid_data = Some 0, Grid_w = 0, Grid_h = 0\<rparr> = 0 \<and>
   Grid_size \<lparr>Grid_data = None, Grid_w = 2, Grid_h = 3\<rparr> = 6"
  by (simp add: Grid_move_def Grid_size_def Grid_destroy_def delete_array_def Grid_new_def
      heap_defs wrap_int_def)

section \<open>Ring buffer: theorems\<close>

lemma smod_nonneg: "0 \<le> k \<Longrightarrow> 0 < l \<Longrightarrow> k smod l = k mod (l::int)"
  by (simp add: signed_modulo_int_def sgn_if)

text \<open>The definitions that evaluate the member functions on a concrete ring buffer.\<close>

lemmas rb_defs = RingBuffer_new_def capacity_def
  RingBuffer_size_def RingBuffer_empty_def RingBuffer_front_def RingBuffer_back_def
  push_front_def pop_front_def push_back_def pop_back_def RingBuffer_at_def
  new_then_calls_def Let_def smod_nonneg

lemma RingBuffer_new_Inr:
  assumes "0 \<le> K"
  shows "RingBuffer_new K hp =
     Inr (\<lparr>rb_data = Some (length hp), rb_capacity = K, rb_begin = 0, rb_end = 0\<rparr>,
          hp @ [Some (replicate (nat K) None)])"
  using assms by (simp add: RingBuffer_new_def new_array_def)

lemma RingBuffer_inv_new:
  assumes "1 \<le> K" and "RingBuffer_new K hp = Inr (r, hp')"
  shows "RingBuffer_inv r hp'"
  using assms by (auto simp: RingBuffer_new_Inr RingBuffer_inv_def array_at_def)

lemma RingBuffer_invD:
  assumes "RingBuffer_inv r hp"
  obtains arr where "array_at hp (rb_data r) = Some arr" and "int (length arr) = rb_capacity r"
    and "0 \<le> rb_begin r" and "rb_begin r < rb_capacity r"
    and "0 \<le> rb_end r" and "rb_end r < rb_capacity r"
  using assms by (auto simp: RingBuffer_inv_def split: option.splits)

lemma store_in_array:
  assumes "array_at hp p = Some arr" and "0 \<le> i" and "i < int (length arr)"
  shows "\<exists>hp'. store hp p i v = Inr hp' \<and> array_at hp' p = Some (arr[nat i := Some v])"
proof -
  from assms(1) obtain a where p: "p = Some a" by (cases p) (simp_all add: array_at_def)
  with assms have st: "store hp p i v = Inr (hp[a := Some (arr[nat i := Some v])])"
    by (simp add: store_Inr)
  from array_at_store [OF st assms(1)] st show ?thesis by simp
qed

lemma push_back_inv:
  assumes "RingBuffer_inv r hp" and "array_at hp (rb_data r) = Some arr"
  shows "\<exists>hp'. push_back v r hp =
            Inr (r\<lparr>rb_end := (if rb_end r + 1 = rb_capacity r then 0 else rb_end r + 1)\<rparr>, hp') \<and>
          array_at hp' (rb_data r) = Some (arr[nat (rb_end r) := Some v]) \<and>
          RingBuffer_inv (r\<lparr>rb_end := (if rb_end r + 1 = rb_capacity r then 0 else rb_end r + 1)\<rparr>) hp'"
proof -
  from assms have len: "int (length arr) = rb_capacity r"
    and e: "0 \<le> rb_end r" "rb_end r < rb_capacity r"
    and b: "0 \<le> rb_begin r" "rb_begin r < rb_capacity r"
    by (auto elim: RingBuffer_invD)
  from store_in_array [OF assms(2) e(1), of v] e(2) len
  obtain hp' where st: "store hp (rb_data r) (rb_end r) v = Inr hp'"
    and arr': "array_at hp' (rb_data r) = Some (arr[nat (rb_end r) := Some v])"
    by auto
  have "push_back v r hp =
      Inr (r\<lparr>rb_end := (if rb_end r + 1 = rb_capacity r then 0 else rb_end r + 1)\<rparr>, hp')"
    using st e by (auto simp: push_back_def capacity_def Let_def)
  moreover have "RingBuffer_inv (r\<lparr>rb_end := (if rb_end r + 1 = rb_capacity r then 0 else rb_end r + 1)\<rparr>) hp'"
    using arr' len e b by (simp add: RingBuffer_inv_def)
  ultimately show ?thesis using arr' by blast
qed

lemma push_front_inv:
  assumes "RingBuffer_inv r hp" and "array_at hp (rb_data r) = Some arr"
  shows "\<exists>hp'. push_front v r hp =
            Inr (r\<lparr>rb_begin := (if rb_begin r = 0 then rb_capacity r - 1 else rb_begin r - 1)\<rparr>, hp') \<and>
          store hp (rb_data r) (if rb_begin r = 0 then rb_capacity r - 1 else rb_begin r - 1) v = Inr hp' \<and>
          array_at hp' (rb_data r) =
            Some (arr[nat (if rb_begin r = 0 then rb_capacity r - 1 else rb_begin r - 1) := Some v]) \<and>
          RingBuffer_inv (r\<lparr>rb_begin := (if rb_begin r = 0 then rb_capacity r - 1 else rb_begin r - 1)\<rparr>) hp'"
proof -
  let ?b = "if rb_begin r = 0 then rb_capacity r - 1 else rb_begin r - 1"
  from assms have len: "int (length arr) = rb_capacity r"
    and e: "0 \<le> rb_end r" "rb_end r < rb_capacity r"
    and b: "0 \<le> rb_begin r" "rb_begin r < rb_capacity r"
    by (auto elim: RingBuffer_invD)
  have b': "0 \<le> ?b" "?b < int (length arr)" using b len by auto
  from store_in_array [OF assms(2) b', of v]
  obtain hp' where st: "store hp (rb_data r) ?b v = Inr hp'"
    and arr': "array_at hp' (rb_data r) = Some (arr[nat ?b := Some v])"
    by auto
  have "push_front v r hp = Inr (r\<lparr>rb_begin := ?b\<rparr>, hp')"
    using st b by (auto simp: push_front_def capacity_def Let_def)
  moreover have "RingBuffer_inv (r\<lparr>rb_begin := ?b\<rparr>) hp'"
    using arr' len e b by (simp add: RingBuffer_inv_def)
  ultimately show ?thesis using arr' st by blast
qed

lemma pop_front_inv:
  assumes "RingBuffer_inv r hp"
  shows "RingBuffer_inv (pop_front r) hp \<and> rb_data (pop_front r) = rb_data r \<and>
         rb_capacity (pop_front r) = rb_capacity r"
  using assms by (auto simp: RingBuffer_inv_def pop_front_def capacity_def Let_def split: option.splits)

lemma pop_back_inv:
  assumes "RingBuffer_inv r hp"
  shows "RingBuffer_inv (pop_back r) hp \<and> rb_data (pop_back r) = rb_data r \<and>
         rb_capacity (pop_back r) = rb_capacity r"
  using assms by (auto simp: RingBuffer_inv_def pop_back_def capacity_def Let_def split: option.splits)

lemma call_inv:
  assumes "RingBuffer_inv r hp"
  shows "\<exists>r' hp'. call c r hp = Inr (r', hp') \<and> RingBuffer_inv r' hp' \<and>
           rb_data r' = rb_data r \<and> rb_capacity r' = rb_capacity r"
proof -
  from assms obtain arr where arr: "array_at hp (rb_data r) = Some arr"
    by (auto elim: RingBuffer_invD)
  show ?thesis
  proof (cases c)
    case (Push_front v)
    with push_front_inv [OF assms arr, of v] show ?thesis by auto
  next
    case Pop_front
    with pop_front_inv [OF assms] show ?thesis by simp
  next
    case (Push_back v)
    with push_back_inv [OF assms arr, of v] show ?thesis by auto
  next
    case Pop_back
    with pop_back_inv [OF assms] show ?thesis by simp
  qed
qed

lemma calls_inv:
  assumes "RingBuffer_inv r hp"
  shows "\<exists>r' hp'. calls cs r hp = Inr (r', hp') \<and> RingBuffer_inv r' hp' \<and>
           rb_data r' = rb_data r \<and> rb_capacity r' = rb_capacity r"
  using assms
proof (induction cs arbitrary: r hp)
  case Nil
  then show ?case by simp
next
  case (Cons c cs)
  from call_inv [OF Cons.prems, of c] obtain r1 hp1
    where c: "call c r hp = Inr (r1, hp1)" and inv: "RingBuffer_inv r1 hp1"
      and same: "rb_data r1 = rb_data r" "rb_capacity r1 = rb_capacity r"
    by blast
  from Cons.IH [OF inv] same c show ?case by auto
qed

lemma RingBuffer_size_bounds:
  assumes "RingBuffer_inv r hp"
  shows "0 \<le> RingBuffer_size r \<and> RingBuffer_size r < capacity r"
  using assms by (auto simp: RingBuffer_inv_def RingBuffer_size_def capacity_def)

lemma calls_append:
  "calls (cs @ ds) r hp =
     (case calls cs r hp of Inl e \<Rightarrow> Inl e | Inr (r1, hp1) \<Rightarrow> calls ds r1 hp1)"
  by (induction cs arbitrary: r hp) (auto split: sum.splits)

lemma push_backs:
  assumes "RingBuffer_inv r hp" and "array_at hp (rb_data r) = Some arr"
    and "rb_end r + int (length vs) < rb_capacity r"
  shows "\<exists>hp' arr'. calls (map Push_back vs) r hp =
            Inr (r\<lparr>rb_end := rb_end r + int (length vs)\<rparr>, hp') \<and>
          RingBuffer_inv (r\<lparr>rb_end := rb_end r + int (length vs)\<rparr>) hp' \<and>
          array_at hp' (rb_data r) = Some arr' \<and>
          (\<forall>j < length vs. arr' ! (nat (rb_end r) + j) = Some (vs ! j)) \<and>
          (\<forall>k < nat (rb_end r). arr' ! k = arr ! k)"
  using assms
proof (induction vs arbitrary: r hp arr)
  case Nil
  then show ?case by simp
next
  case (Cons v vs)
  let ?next = "r\<lparr>rb_end := rb_end r + 1\<rparr>"
  from Cons.prems(1) have e: "0 \<le> rb_end r"
    and len: "int (length arr) = rb_capacity r"
    using Cons.prems(2) by (auto elim: RingBuffer_invD)
  from Cons.prems(3) have nowrap: "rb_end r + 1 \<noteq> rb_capacity r" by simp
  from push_back_inv [OF Cons.prems(1,2), of v] nowrap
  obtain hp1 where pb: "push_back v r hp = Inr (?next, hp1)"
    and arr1: "array_at hp1 (rb_data ?next) = Some (arr[nat (rb_end r) := Some v])"
    and inv1: "RingBuffer_inv ?next hp1"
    by auto
  have room: "rb_end ?next + int (length vs) < rb_capacity ?next"
    using Cons.prems(3) by simp
  from Cons.IH [OF inv1 arr1 room]
  obtain hp' arr' where run: "calls (map Push_back vs) ?next hp1 =
        Inr (?next\<lparr>rb_end := rb_end ?next + int (length vs)\<rparr>, hp')"
    and inv': "RingBuffer_inv (?next\<lparr>rb_end := rb_end ?next + int (length vs)\<rparr>) hp'"
    and arr': "array_at hp' (rb_data ?next) = Some arr'"
    and new: "\<forall>j < length vs. arr' ! (nat (rb_end ?next) + j) = Some (vs ! j)"
    and old: "\<forall>k < nat (rb_end ?next). arr' ! k = (arr[nat (rb_end r) := Some v]) ! k"
    by blast
  have req: "?next\<lparr>rb_end := rb_end ?next + int (length vs)\<rparr> =
             r\<lparr>rb_end := rb_end r + int (length (v # vs))\<rparr>"
    by simp
  have n1: "nat (rb_end ?next) = Suc (nat (rb_end r))" using e by (simp add: nat_add_distrib)
  have inrange: "nat (rb_end r) < length arr" using Cons.prems(3) len e by simp
  have at_e: "arr' ! nat (rb_end r) = Some v"
    using old n1 inrange by simp
  have news: "arr' ! (nat (rb_end r) + j) = Some ((v # vs) ! j)" if "j < length (v # vs)" for j
  proof (cases j)
    case 0
    with at_e show ?thesis by simp
  next
    case (Suc i)
    with that new n1 show ?thesis by simp
  qed
  have olds: "arr' ! k = arr ! k" if "k < nat (rb_end r)" for k
    using old n1 that by simp
  have "calls (map Push_back (v # vs)) r hp =
          Inr (r\<lparr>rb_end := rb_end r + int (length (v # vs))\<rparr>, hp')"
    using pb run req by simp
  moreover have "RingBuffer_inv (r\<lparr>rb_end := rb_end r + int (length (v # vs))\<rparr>) hp'"
    using inv' by (simp only: req)
  moreover have "array_at hp' (rb_data r) = Some arr'" using arr' by simp
  ultimately show ?case using news olds by blast
qed

lemma load_array:
  assumes "array_at hp p = Some arr" and "0 \<le> i" and "i < int (length arr)"
    and "arr ! nat i = Some v"
  shows "load hp p i = Inr v"
  using assms by (simp add: load_def)

text \<open>\<open>K - 1\<close> pushes at the back of a new buffer of capacity \<open>K\<close>.\<close>

lemma push_back_below_capacity:
  assumes "1 \<le> K" and "int (length vs) = K - 1"
  shows "\<exists>r hp'. (case RingBuffer_new K hp of Inl e \<Rightarrow> Inl e
                   | Inr (r0, hp0) \<Rightarrow> calls (map Push_back vs) r0 hp0) = Inr (r, hp') \<and>
           RingBuffer_inv r hp' \<and> capacity r = K \<and>
           RingBuffer_size r = K - 1 \<and>
           (vs \<noteq> [] \<longrightarrow> RingBuffer_front r hp' = Inr (hd vs) \<and> RingBuffer_back r hp' = Inr (last vs)) \<and>
           (\<forall>i < length vs. RingBuffer_at r hp' (int i) = Inr (vs ! i))"
proof -
  let ?new = "\<lparr>rb_data = Some (length hp), rb_capacity = K, rb_begin = 0, rb_end = 0\<rparr>"
  let ?hpn = "hp @ [Some (replicate (nat K) None)]"
  have new: "RingBuffer_new K hp = Inr (?new, ?hpn)"
    using assms(1) by (simp add: RingBuffer_new_Inr)
  have inv0: "RingBuffer_inv ?new ?hpn"
    using assms(1) new by (intro RingBuffer_inv_new)
  have arr0: "array_at ?hpn (rb_data ?new) = Some (replicate (nat K) None)"
    by (simp add: array_at_def)
  have room: "rb_end ?new + int (length vs) < rb_capacity ?new"
    using assms(2) by simp
  let ?r = "?new\<lparr>rb_end := rb_end ?new + int (length vs)\<rparr>"
  from push_backs [OF inv0 arr0 room]
  obtain hp' arr' where run: "calls (map Push_back vs) ?new ?hpn = Inr (?r, hp')"
    and inv: "RingBuffer_inv ?r hp'"
    and arr': "array_at hp' (rb_data ?new) = Some arr'"
    and elems: "\<forall>j < length vs. arr' ! (nat (rb_end ?new) + j) = Some (vs ! j)"
    by blast
  from inv arr' have len: "int (length arr') = K"
    by (auto elim: RingBuffer_invD)
  have elem: "arr' ! j = Some (vs ! j)" if "j < length vs" for j
    using elems that by simp
  have ld: "load hp' (Some (length hp)) (int j) = Inr (vs ! j)" if "j < length vs" for j
    using arr' len assms(2) that elem [OF that] by (intro load_array [where arr = arr']) simp_all
  have size: "RingBuffer_size ?r = K - 1"
    using assms by (simp add: RingBuffer_size_def)
  have at: "RingBuffer_at ?r hp' (int i) = Inr (vs ! i)" if "i < length vs" for i
  proof -
    have "int i smod K = int i" using that assms by (simp add: smod_nonneg)
    then show ?thesis using ld [OF that] assms(1) by (simp add: RingBuffer_at_def)
  qed
  have ends: "RingBuffer_front ?r hp' = Inr (hd vs) \<and> RingBuffer_back ?r hp' = Inr (last vs)"
    if ne: "vs \<noteq> []"
  proof -
    from ne have pos: "0 < length vs" by simp
    have "RingBuffer_front ?r hp' = Inr (vs ! 0)"
      using ld [OF pos] by (simp add: RingBuffer_front_def)
    moreover have "int (length vs) - 1 = int (length vs - 1)" using ne by (cases vs) simp_all
    then have "RingBuffer_back ?r hp' = Inr (vs ! (length vs - 1))"
      using ld [of "length vs - 1"] pos by (simp add: RingBuffer_back_def)
    ultimately show ?thesis using ne by (simp add: hd_conv_nth last_conv_nth)
  qed
  from new run inv size at ends show ?thesis
    by (simp add: capacity_def)
qed

text \<open>\<open>K\<close> pushes at the back of a new buffer of capacity \<open>K\<close> bring \<open>end_\<close> back to 0.\<close>

lemma push_back_to_capacity:
  assumes "1 \<le> K" and "int (length vs) = K"
  shows "\<exists>r0 hp0 hp'. RingBuffer_new K hp = Inr (r0, hp0) \<and>
           calls (map Push_back vs) r0 hp0 = Inr (r0, hp') \<and>
           array_at hp' (rb_data r0) = Some (map Some vs)"
proof -
  let ?new = "\<lparr>rb_data = Some (length hp), rb_capacity = K, rb_begin = 0, rb_end = 0\<rparr>"
  let ?hpn = "hp @ [Some (replicate (nat K) None)]"
  from assms have ne: "vs \<noteq> []" by auto
  define us where "us = butlast vs"
  have vs: "vs = us @ [last vs]" using ne by (simp add: us_def)
  have lus: "int (length us) = K - 1"
    using assms(2) ne by (cases vs rule: rev_cases) (simp_all add: us_def)
  have new: "RingBuffer_new K hp = Inr (?new, ?hpn)"
    using assms(1) by (simp add: RingBuffer_new_Inr)
  have inv0: "RingBuffer_inv ?new ?hpn"
    using assms(1) new by (intro RingBuffer_inv_new)
  have arr0: "array_at ?hpn (rb_data ?new) = Some (replicate (nat K) None)"
    by (simp add: array_at_def)
  have room: "rb_end ?new + int (length us) < rb_capacity ?new"
    using lus by simp
  let ?mid = "?new\<lparr>rb_end := rb_end ?new + int (length us)\<rparr>"
  from push_backs [OF inv0 arr0 room]
  obtain hp1 arr1 where run: "calls (map Push_back us) ?new ?hpn = Inr (?mid, hp1)"
    and inv1: "RingBuffer_inv ?mid hp1"
    and arr1: "array_at hp1 (rb_data ?new) = Some arr1"
    and elems: "\<forall>j < length us. arr1 ! (nat (rb_end ?new) + j) = Some (us ! j)"
    by blast
  from inv1 arr1 have len1: "int (length arr1) = K"
    by (auto elim: RingBuffer_invD)
  have arr1': "array_at hp1 (rb_data ?mid) = Some arr1" using arr1 by simp
  from push_back_inv [OF inv1 arr1', of "last vs"] lus
  obtain hp' where pb: "push_back (last vs) ?mid hp1 = Inr (?new, hp')"
    and arr': "array_at hp' (rb_data ?new) = Some (arr1[nat (K - 1) := Some (last vs)])"
    by auto
  have "arr1[nat (K - 1) := Some (last vs)] = map Some vs"
  proof (rule nth_equalityI)
    show "length (arr1[nat (K - 1) := Some (last vs)]) = length (map Some vs)"
      using len1 assms(2) by simp
  next
    fix i assume "i < length (arr1[nat (K - 1) := Some (last vs)])"
    then have i: "i < length vs" using len1 assms(2) by simp
    have k: "nat (K - 1) = length us" using lus by simp
    show "arr1[nat (K - 1) := Some (last vs)] ! i = map Some vs ! i"
    proof (cases "i = length us")
      case True
      then have "vs ! i = last vs" using ne by (simp add: us_def last_conv_nth)
      with True i k len1 assms(2) show ?thesis by simp
    next
      case False
      with i have iu: "i < length us" by (simp add: us_def)
      then have "vs ! i = us ! i" by (simp add: us_def nth_butlast)
      with iu False k i elems show ?thesis by simp
    qed
  qed
  with arr' have final: "array_at hp' (rb_data ?new) = Some (map Some vs)" by simp
  have last: "calls [Push_back (last vs)] ?mid hp1 = Inr (?new, hp')"
    by (simp only: calls.simps call.simps pb sum.case prod.case)
  have "map Push_back vs = map Push_back us @ [Push_back (last vs)]"
    by (subst vs) simp
  then have "calls (map Push_back vs) ?new ?hpn = Inr (?new, hp')"
    by (simp only: calls_append run sum.case prod.case last)
  with new final show ?thesis by blast
qed

lemma RingBuffer_size_empty: "RingBuffer_empty r \<Longrightarrow> RingBuffer_size r = 0"
  by (simp add: RingBuffer_empty_def RingBuffer_size_def)

lemma push_front_pop_front:
  assumes "RingBuffer_inv r hp"
  shows "\<exists>r1 hp1. push_front v r hp = Inr (r1, hp1) \<and> pop_front r1 = r \<and>
           (\<forall>i. 0 \<le> i \<and> i < RingBuffer_size r \<longrightarrow> RingBuffer_at r hp1 i = RingBuffer_at r hp i)"
proof -
  let ?b = "if rb_begin r = 0 then rb_capacity r - 1 else rb_begin r - 1"
  from assms obtain arr where arr: "array_at hp (rb_data r) = Some arr"
    and e: "0 \<le> rb_end r" "rb_end r < rb_capacity r"
    and b: "0 \<le> rb_begin r" "rb_begin r < rb_capacity r"
    by (auto elim: RingBuffer_invD)
  from push_front_inv [OF assms arr, of v]
  obtain hp1 where pf: "push_front v r hp = Inr (r\<lparr>rb_begin := ?b\<rparr>, hp1)"
    and st: "store hp (rb_data r) ?b v = Inr hp1"
    by blast
  have pop: "pop_front (r\<lparr>rb_begin := ?b\<rparr>) = r"
    using b by (simp add: pop_front_def capacity_def Let_def)
  have frame: "RingBuffer_at r hp1 i = RingBuffer_at r hp i"
    if i: "0 \<le> i" "i < RingBuffer_size r" for i
  proof -
    have nn: "0 \<le> rb_begin r + i" using b i by simp
    have pos: "0 < rb_capacity r" using b by simp
    have lt: "i < rb_capacity r - 1"
      using i e b by (auto simp: RingBuffer_size_def capacity_def split: if_splits)
    have "(rb_begin r + i) mod rb_capacity r =
          (if rb_begin r + i < rb_capacity r then rb_begin r + i else rb_begin r + i - rb_capacity r)"
    proof (cases "rb_begin r + i < rb_capacity r")
      case True
      with nn show ?thesis by simp
    next
      case False
      have "(rb_begin r + i) mod rb_capacity r = (rb_begin r + i - rb_capacity r) mod rb_capacity r"
        by simp
      also have "\<dots> = rb_begin r + i - rb_capacity r"
        using False lt b by (intro mod_pos_pos_trivial) simp_all
      finally show ?thesis using False by simp
    qed
    with lt b i have "(rb_begin r + i) mod rb_capacity r \<noteq> ?b"
      by (auto split: if_splits)
    then have "(rb_begin r + i) smod rb_capacity r \<noteq> ?b"
      by (simp add: smod_nonneg [OF nn pos])
    then have "load hp1 (rb_data r) ((rb_begin r + i) smod rb_capacity r) =
               load hp (rb_data r) ((rb_begin r + i) smod rb_capacity r)"
      by (rule load_store_other [OF st])
    then show ?thesis by (simp add: RingBuffer_at_def)
  qed
  from pf pop frame show ?thesis by blast
qed

lemma new_then_calls_inv:
  assumes "1 \<le> K"
  shows "\<exists>r hp'. new_then_calls K cs hp = Inr (r, hp') \<and> RingBuffer_inv r hp' \<and> capacity r = K"
proof -
  let ?new = "\<lparr>rb_data = Some (length hp), rb_capacity = K, rb_begin = 0, rb_end = 0\<rparr>"
  let ?hpn = "hp @ [Some (replicate (nat K) None)]"
  have new: "RingBuffer_new K hp = Inr (?new, ?hpn)"
    using assms by (simp add: RingBuffer_new_Inr)
  have "RingBuffer_inv ?new ?hpn"
    using assms new by (intro RingBuffer_inv_new)
  from calls_inv [OF this, of cs] new show ?thesis
    by (auto simp: new_then_calls_def capacity_def)
qed

text \<open>The copy constructor of \<open>RingBuffer\<close> keeps the pointer of the source.\<close>

lemma RingBuffer_copy_alias:
  assumes "RingBuffer_copy that hp = Inr (this, hp')"
  shows "rb_data this = rb_data that"
  using assms by (auto simp: RingBuffer_copy_def Let_def split: sum.splits)

text \<open>
  Claim C4. For a capacity \<open>K \<ge> 1\<close> and \<open>K - 1\<close> values, constructing a ring buffer of
  capacity \<open>K\<close> and pushing the values at the back in order succeeds, and afterwards
  \<open>size()\<close> is \<open>K - 1\<close>, \<open>front()\<close> is the first value and \<open>back()\<close> the last (when there
  is one), and \<open>at(i)\<close> is the \<open>i\<close>-th value for every \<open>i\<close>. For the capacity 4,
  \<open>push_back(1)\<close>, \<open>push_back(2)\<close>, \<open>push_front(0)\<close> give \<open>size() = 3\<close> and the elements
  0, 1, 2.
\<close>

theorem push_back_sequence:
  "(1 \<le> K \<and> int (length vs) = K - 1 \<longrightarrow>
      (\<exists>r hp'. new_then_calls K (map Push_back vs) hp = Inr (r, hp') \<and>
         capacity r = K \<and> RingBuffer_size r = K - 1 \<and>
         (vs \<noteq> [] \<longrightarrow> RingBuffer_front r hp' = Inr (hd vs) \<and> RingBuffer_back r hp' = Inr (last vs)) \<and>
         (\<forall>i < length vs. RingBuffer_at r hp' (int i) = Inr (vs ! i)))) \<and>
   (\<exists>r hp'. new_then_calls 4 [Push_back 1, Push_back 2, Push_front (0::int)] [] = Inr (r, hp') \<and>
      RingBuffer_size r = 3 \<and> RingBuffer_at r hp' 0 = Inr 0 \<and>
      RingBuffer_at r hp' 1 = Inr 1 \<and> RingBuffer_at r hp' 2 = Inr 2)"
proof (intro conjI impI)
  assume "1 \<le> K \<and> int (length vs) = K - 1"
  then have K: "1 \<le> K" and len: "int (length vs) = K - 1" by simp_all
  from push_back_below_capacity [OF K len, of hp]
  show "\<exists>r hp'. new_then_calls K (map Push_back vs) hp = Inr (r, hp') \<and>
         capacity r = K \<and> RingBuffer_size r = K - 1 \<and>
         (vs \<noteq> [] \<longrightarrow> RingBuffer_front r hp' = Inr (hd vs) \<and> RingBuffer_back r hp' = Inr (last vs)) \<and>
         (\<forall>i < length vs. RingBuffer_at r hp' (int i) = Inr (vs ! i))"
    unfolding new_then_calls_def by blast
next
  have "new_then_calls 4 [Push_back 1, Push_back 2, Push_front (0::int)] [] =
      Inr (\<lparr>rb_data = Some 0, rb_capacity = 4, rb_begin = 3, rb_end = 2\<rparr>,
           [Some [Some 1, Some 2, None, Some 0]])"
    by (simp add: heap_defs rb_defs numeral_eq_Suc)
  moreover have "RingBuffer_size \<lparr>rb_data = Some 0, rb_capacity = 4, rb_begin = 3, rb_end = 2\<rparr> = 3"
    by (simp add: rb_defs)
  moreover have
    "RingBuffer_at \<lparr>rb_data = Some 0, rb_capacity = 4, rb_begin = 3, rb_end = 2\<rparr>
       [Some [Some 1, Some 2, None, Some (0::int)]] 0 = Inr 0"
    "RingBuffer_at \<lparr>rb_data = Some 0, rb_capacity = 4, rb_begin = 3, rb_end = 2\<rparr>
       [Some [Some 1, Some 2, None, Some (0::int)]] 1 = Inr 1"
    "RingBuffer_at \<lparr>rb_data = Some 0, rb_capacity = 4, rb_begin = 3, rb_end = 2\<rparr>
       [Some [Some 1, Some 2, None, Some (0::int)]] 2 = Inr 2"
    by (simp_all add: heap_defs rb_defs numeral_eq_Suc)
  ultimately show "\<exists>r hp'. new_then_calls 4 [Push_back 1, Push_back 2, Push_front (0::int)] [] = Inr (r, hp') \<and>
      RingBuffer_size r = 3 \<and> RingBuffer_at r hp' 0 = Inr 0 \<and>
      RingBuffer_at r hp' 1 = Inr 1 \<and> RingBuffer_at r hp' 2 = Inr 2"
    by blast
qed

text \<open>The witness: capacity 3 and the values 10, 20.\<close>

theorem push_back_sequence_witness:
  "(1::int) \<le> 3 \<and> int (length [10, 20 :: int]) = 3 - 1 \<and>
   new_then_calls 3 (map Push_back [10, 20 :: int]) [] =
     Inr (\<lparr>rb_data = Some 0, rb_capacity = 3, rb_begin = 0, rb_end = 2\<rparr>,
          [Some [Some 10, Some 20, None]]) \<and>
   RingBuffer_size \<lparr>rb_data = Some 0, rb_capacity = 3, rb_begin = 0, rb_end = 2\<rparr> = 2 \<and>
   RingBuffer_front \<lparr>rb_data = Some 0, rb_capacity = 3, rb_begin = 0, rb_end = 2\<rparr>
     [Some [Some 10, Some 20, None]] = Inr (10::int) \<and>
   RingBuffer_back \<lparr>rb_data = Some 0, rb_capacity = 3, rb_begin = 0, rb_end = 2\<rparr>
     [Some [Some 10, Some 20, None]] = Inr (20::int) \<and>
   RingBuffer_at \<lparr>rb_data = Some 0, rb_capacity = 3, rb_begin = 0, rb_end = 2\<rparr>
     [Some [Some 10, Some 20, None]] 1 = Inr (20::int)"
proof -
  have run: "new_then_calls 3 (map Push_back [10, 20 :: int]) [] =
     Inr (\<lparr>rb_data = Some 0, rb_capacity = 3, rb_begin = 0, rb_end = 2\<rparr>,
          [Some [Some 10, Some 20, None]])"
    by (simp add: heap_defs rb_defs numeral_eq_Suc)
  have "(1::int) \<le> 3 \<and> int (length [10, 20 :: int]) = 3 - 1" by simp
  with push_back_sequence [of 3 "[10, 20 :: int]" "[]"] run
  show ?thesis by (simp add: All_less_Suc)
qed

text \<open>
  Claim C10. For a capacity \<open>K \<ge> 1\<close>, \<open>K\<close> pushes at the back of a new ring buffer
  succeed and leave the object as the constructor made it: \<open>end_\<close> equals \<open>begin_\<close>,
  \<open>empty()\<close> holds and \<open>size()\<close> is 0, while every slot of the array holds a pushed
  value. After any sequence of pushes and pops on a new ring buffer, \<open>size()\<close> is in
  \<open>[0, K)\<close>, so it is never \<open>K\<close>.
\<close>

theorem push_back_capacity_wraps:
  "(1 \<le> K \<and> int (length vs) = K \<longrightarrow>
      (\<exists>r hp0 hp'. RingBuffer_new K hp = Inr (r, hp0) \<and>
         new_then_calls K (map Push_back vs) hp = Inr (r, hp') \<and>
         rb_end r = rb_begin r \<and> RingBuffer_empty r \<and> RingBuffer_size r = 0 \<and>
         array_at hp' (rb_data r) = Some (map Some vs))) \<and>
   (1 \<le> K \<longrightarrow>
      (\<exists>r hp'. new_then_calls K cs hp = Inr (r, hp') \<and> capacity r = K \<and>
         0 \<le> RingBuffer_size r \<and> RingBuffer_size r < K \<and> RingBuffer_size r \<noteq> K))"
proof (intro conjI impI)
  assume "1 \<le> K \<and> int (length vs) = K"
  then have K: "1 \<le> K" and len: "int (length vs) = K" by simp_all
  from push_back_to_capacity [OF K len, of hp]
  obtain r hp0 hp' where new: "RingBuffer_new K hp = Inr (r, hp0)"
    and run: "calls (map Push_back vs) r hp0 = Inr (r, hp')"
    and arr: "array_at hp' (rb_data r) = Some (map Some vs)"
    by blast
  from new K have r: "rb_begin r = 0" "rb_end r = 0"
    by (auto simp: RingBuffer_new_Inr)
  then have "RingBuffer_empty r" "RingBuffer_size r = 0"
    by (simp_all add: RingBuffer_empty_def RingBuffer_size_def)
  moreover have "new_then_calls K (map Push_back vs) hp = Inr (r, hp')"
    using new run by (simp add: new_then_calls_def)
  ultimately show "\<exists>r hp0 hp'. RingBuffer_new K hp = Inr (r, hp0) \<and>
         new_then_calls K (map Push_back vs) hp = Inr (r, hp') \<and>
         rb_end r = rb_begin r \<and> RingBuffer_empty r \<and> RingBuffer_size r = 0 \<and>
         array_at hp' (rb_data r) = Some (map Some vs)"
    using new arr r by auto
next
  assume K: "1 \<le> K"
  from new_then_calls_inv [OF K, of cs hp]
  obtain r hp' where run: "new_then_calls K cs hp = Inr (r, hp')"
    and inv: "RingBuffer_inv r hp'" and cap: "capacity r = K"
    by blast
  from RingBuffer_size_bounds [OF inv] cap run
  show "\<exists>r hp'. new_then_calls K cs hp = Inr (r, hp') \<and> capacity r = K \<and>
         0 \<le> RingBuffer_size r \<and> RingBuffer_size r < K \<and> RingBuffer_size r \<noteq> K"
    by auto
qed

text \<open>The witness: capacity 2 and the values 10, 20.\<close>

theorem push_back_capacity_wraps_witness:
  "(1::int) \<le> 2 \<and> int (length [10, 20 :: int]) = 2 \<and>
   RingBuffer_new 2 ([] :: int heap) =
     Inr (\<lparr>rb_data = Some 0, rb_capacity = 2, rb_begin = 0, rb_end = 0\<rparr>, [Some [None, None]]) \<and>
   new_then_calls 2 (map Push_back [10, 20 :: int]) [] =
     Inr (\<lparr>rb_data = Some 0, rb_capacity = 2, rb_begin = 0, rb_end = 0\<rparr>,
          [Some [Some 10, Some 20]]) \<and>
   RingBuffer_empty \<lparr>rb_data = Some 0, rb_capacity = 2, rb_begin = 0, rb_end = 0\<rparr> \<and>
   RingBuffer_size \<lparr>rb_data = Some 0, rb_capacity = 2, rb_begin = 0, rb_end = 0\<rparr> = 0"
proof -
  have run: "new_then_calls 2 (map Push_back [10, 20 :: int]) [] =
     Inr (\<lparr>rb_data = Some 0, rb_capacity = 2, rb_begin = 0, rb_end = 0\<rparr>,
          [Some [Some 10, Some 20]])"
    by (simp add: heap_defs rb_defs numeral_eq_Suc)
  have new: "RingBuffer_new 2 ([] :: int heap) =
     Inr (\<lparr>rb_data = Some 0, rb_capacity = 2, rb_begin = 0, rb_end = 0\<rparr>, [Some [None, None]])"
    by (simp add: heap_defs rb_defs numeral_eq_Suc)
  have "(1::int) \<le> 2 \<and> int (length [10, 20 :: int]) = 2" by simp
  with push_back_capacity_wraps [of 2 "[10, 20 :: int]" "[]" "[]"] run new
  show ?thesis by simp
qed

text \<open>
  Claim C7. Every ring buffer state that satisfies the invariant (every state reached from
  the constructor with a capacity of at least 1 by pushes and pops does,
  \<open>new_then_calls_inv\<close>) has \<open>size() < capacity()\<close>, and in it \<open>push_front(v)\<close> followed
  by \<open>pop_front()\<close> succeeds and restores the object, so the capacity, the size and
  \<open>at(i)\<close> for every \<open>0 \<le> i < size()\<close> are what they were before.
\<close>

theorem push_front_pop_front_roundtrip:
  assumes "RingBuffer_inv r hp"
  shows "RingBuffer_size r < capacity r \<and>
         (\<exists>r1 hp1. push_front v r hp = Inr (r1, hp1) \<and> RingBuffer_inv (pop_front r1) hp1 \<and>
            pop_front r1 = r \<and>
            capacity (pop_front r1) = capacity r \<and>
            RingBuffer_size (pop_front r1) = RingBuffer_size r \<and>
            (\<forall>i. 0 \<le> i \<and> i < RingBuffer_size r \<longrightarrow>
               RingBuffer_at (pop_front r1) hp1 i = RingBuffer_at r hp i))"
proof -
  from push_front_pop_front [OF assms, of v]
  obtain r1 hp1 where pf: "push_front v r hp = Inr (r1, hp1)" and pop: "pop_front r1 = r"
    and frame: "\<forall>i. 0 \<le> i \<and> i < RingBuffer_size r \<longrightarrow> RingBuffer_at r hp1 i = RingBuffer_at r hp i"
    by blast
  from assms obtain arr where arr: "array_at hp (rb_data r) = Some arr"
    by (auto elim: RingBuffer_invD)
  from push_front_inv [OF assms arr, of v] pf
  have "RingBuffer_inv r1 hp1" by auto
  then have "RingBuffer_inv (pop_front r1) hp1" using pop_front_inv by blast
  with pf pop frame RingBuffer_size_bounds [OF assms] show ?thesis by auto
qed

text \<open>The witness: capacity 3 holding 10, 20, and \<open>push_front(5)\<close>.\<close>

theorem push_front_pop_front_roundtrip_witness:
  "RingBuffer_inv \<lparr>rb_data = Some 0, rb_capacity = 3, rb_begin = 0, rb_end = 2\<rparr>
     [Some [Some 10, Some 20, None :: int option]] \<and>
   RingBuffer_size \<lparr>rb_data = Some 0, rb_capacity = 3, rb_begin = 0, rb_end = 2\<rparr> = 2 \<and>
   push_front (5::int) \<lparr>rb_data = Some 0, rb_capacity = 3, rb_begin = 0, rb_end = 2\<rparr>
     [Some [Some 10, Some 20, None]] =
     Inr (\<lparr>rb_data = Some 0, rb_capacity = 3, rb_begin = 2, rb_end = 2\<rparr>,
          [Some [Some 10, Some 20, Some 5]]) \<and>
   pop_front \<lparr>rb_data = Some 0, rb_capacity = 3, rb_begin = 2, rb_end = 2\<rparr> =
     \<lparr>rb_data = Some 0, rb_capacity = 3, rb_begin = 0, rb_end = 2\<rparr> \<and>
   RingBuffer_at \<lparr>rb_data = Some 0, rb_capacity = 3, rb_begin = 0, rb_end = 2\<rparr>
     [Some [Some 10, Some 20, Some (5::int)]] 1 = Inr 20"
proof -
  have inv: "RingBuffer_inv \<lparr>rb_data = Some 0, rb_capacity = 3, rb_begin = 0, rb_end = 2\<rparr>
     [Some [Some 10, Some 20, None :: int option]]"
    by (simp add: RingBuffer_inv_def array_at_def)
  have pf: "push_front (5::int) \<lparr>rb_data = Some 0, rb_capacity = 3, rb_begin = 0, rb_end = 2\<rparr>
     [Some [Some 10, Some 20, None]] =
     Inr (\<lparr>rb_data = Some 0, rb_capacity = 3, rb_begin = 2, rb_end = 2\<rparr>,
          [Some [Some 10, Some 20, Some 5]])"
    by (simp add: heap_defs rb_defs numeral_eq_Suc)
  have before: "RingBuffer_at \<lparr>rb_data = Some 0, rb_capacity = 3, rb_begin = 0, rb_end = 2\<rparr>
     [Some [Some 10, Some 20, None :: int option]] 1 = Inr 20"
    by (simp add: heap_defs rb_defs numeral_eq_Suc)
  have size: "RingBuffer_size \<lparr>rb_data = Some 0, rb_capacity = 3, rb_begin = 0, rb_end = 2\<rparr> = 2"
    by (simp add: rb_defs)
  from push_front_pop_front_roundtrip [OF inv, of 5] pf size before
  have "RingBuffer_at (pop_front \<lparr>rb_data = Some 0, rb_capacity = 3, rb_begin = 2, rb_end = 2\<rparr>)
     [Some [Some 10, Some 20, Some (5::int)]] 1 = Inr 20"
    by auto
  moreover have "pop_front \<lparr>rb_data = Some 0, rb_capacity = 3, rb_begin = 2, rb_end = 2\<rparr> =
     \<lparr>rb_data = Some 0, rb_capacity = 3, rb_begin = 0, rb_end = 2\<rparr>"
    by (simp add: rb_defs)
  ultimately show ?thesis using inv pf size by simp
qed

text \<open>
  Claim C1, evaluated on the code. The copy constructor copies the pointer, so the copy
  and the original share one array. After \<^verbatim>\<open>RingBuffer<int> r(2); r.push_back(1);
  RingBuffer<int> r2(r);\<close> the copy is the same object state on the same heap; then
  \<^verbatim>\<open>r2.pop_back(); r2.push_back(9);\<close> changes \<open>r.at(0)\<close> from 1 to 9. Destroying both
  deletes the array twice.
\<close>

theorem RingBuffer_copy_shares_buffer:
  "new_then_calls 2 [Push_back (1::int)] [] =
     Inr (\<lparr>rb_data = Some 0, rb_capacity = 2, rb_begin = 0, rb_end = 1\<rparr>, [Some [Some 1, None]]) \<and>
   RingBuffer_copy \<lparr>rb_data = Some 0, rb_capacity = 2, rb_begin = 0, rb_end = 1\<rparr>
       [Some [Some (1::int), None]] =
     Inr (\<lparr>rb_data = Some 0, rb_capacity = 2, rb_begin = 0, rb_end = 1\<rparr>, [Some [Some 1, None]]) \<and>
   RingBuffer_at \<lparr>rb_data = Some 0, rb_capacity = 2, rb_begin = 0, rb_end = 1\<rparr>
       [Some [Some (1::int), None]] 0 = Inr 1 \<and>
   calls [Pop_back, Push_back (9::int)] \<lparr>rb_data = Some 0, rb_capacity = 2, rb_begin = 0, rb_end = 1\<rparr>
       [Some [Some 1, None]] =
     Inr (\<lparr>rb_data = Some 0, rb_capacity = 2, rb_begin = 0, rb_end = 1\<rparr>, [Some [Some 9, None]]) \<and>
   RingBuffer_at \<lparr>rb_data = Some 0, rb_capacity = 2, rb_begin = 0, rb_end = 1\<rparr>
       [Some [Some (9::int), None]] 0 = Inr 9 \<and>
   RingBuffer_destroy \<lparr>rb_data = Some 0, rb_capacity = 2, rb_begin = 0, rb_end = 1\<rparr>
       [Some [Some (9::int), None]] = Inr [None] \<and>
   RingBuffer_destroy \<lparr>rb_data = Some 0, rb_capacity = 2, rb_begin = 0, rb_end = 1\<rparr>
       ([None] :: int heap) = Inl Undefined_behaviour"
  by (simp add: RingBuffer_copy_def RingBuffer_destroy_def std_copy_def delete_array_def
      heap_defs rb_defs numeral_eq_Suc)

end
